theory Spec2Isabelle
  imports Complex_Main "HOL-Library.Log_Nat"
begin

section \<open>Meek STV with a fixed Droop quota: the model of stv\_election.py\<close>

text \<open>
  The embedding follows \<^verbatim>\<open>src/python/stv_election.py\<close> method by method.
  \<^item> A Python float (\<^verbatim>\<open>votes\<close>, \<^verbatim>\<open>keep_rate\<close>, \<^verbatim>\<open>vote_value\<close>) is the real number that
    the IEEE 754 double stands for. Every product, quotient, sum and difference of floats
    in the source is rounded to the nearest double by \<open>fl\<close>; comparisons are exact.
  \<^item> The dictionary \<^verbatim>\<open>self.candidates\<close> is the list of its values in insertion
    order; each value carries its key in the field \<open>name\<close>. A reference to a
    \<^verbatim>\<open>Candidate\<close> object is its position in that list.
  \<^item> Exceptions are values of \<open>py_error\<close>; a method that can raise returns
    \<open>py_error + 'a\<close>.
  \<^item> The \<^verbatim>\<open>while True\<close> loop of \<^verbatim>\<open>_run_main_loop\<close> may run forever; it is a
    partial function into \<open>option\<close>, where \<open>None\<close> means that the loop does not return.
  \<^item> Printing is not modelled; the field \<open>verbose\<close> only guards printing.
\<close>

subsection \<open>Floating-point arithmetic\<close>

text \<open>
  \<open>expo x\<close> is the binary exponent of \<open>x\<close>: the integer \<open>e\<close> with
  \<open>2\<^sup>e \<le> \<bar>x\<bar> < 2\<^sup>e\<^sup>+\<^sup>1\<close>, for \<open>x\<close> other than 0.
\<close>

definition expo :: "real \<Rightarrow> int" where
  "expo x = (if 1 \<le> \<bar>x\<bar> then bitlen \<lfloor>\<bar>x\<bar>\<rfloor> - 1 else - bitlen (\<lceil>1 / \<bar>x\<bar>\<rceil> - 1))"

text \<open>Rounding to the nearest integer, a tie to the even one.\<close>

definition round_even :: "real \<Rightarrow> int" where
  "round_even r =
     (let f = \<lfloor>r\<rfloor>; d = r - of_int f in
      if d < 1 / 2 then f else if 1 / 2 < d then f + 1 else if even f then f else f + 1)"

text \<open>
  The exponent of the last bit of the 53-bit significand of the double nearest to \<open>x\<close>;
  below \<open>2\<^sup>-\<^sup>1\<^sup>0\<^sup>2\<^sup>2\<close> doubles are subnormal, spaced by \<open>2\<^sup>-\<^sup>1\<^sup>0\<^sup>7\<^sup>4\<close>.
\<close>

definition ulp_exp :: "real \<Rightarrow> int" where
  "ulp_exp x = max (expo x - 52) (- 1074)"

text \<open>
  \<open>fl x\<close>: the double nearest to \<open>x\<close>, a tie to the one with an even significand (the
  rounding of every float operation of CPython). The exponent is not bounded above: a
  result of magnitude \<open>2\<^sup>1\<^sup>0\<^sup>2\<^sup>4\<close> or more, which Python gives as \<^verbatim>\<open>inf\<close>, is outside
  the model. No quantity of a run comes near it: votes are sums of ballot values, each at
  most 1, and keep rates start at 1 and shrink.
\<close>

definition fl :: "real \<Rightarrow> real" where
  "fl x = (let e = ulp_exp x in of_int (round_even (x / 2 powi e)) * 2 powi e)"

subsection \<open>Data\<close>

datatype py_error = ZeroDivisionError | KeyError

record Candidate =
  name :: string
  votes :: real
  is_winner :: bool
  is_loser :: bool
  keep_rate :: real

text \<open>\<^verbatim>\<open>Candidate.__init__\<close>\<close>

definition Candidate_init :: "string \<Rightarrow> Candidate" where
  "Candidate_init n =
     \<lparr>name = n, votes = 0, is_winner = False, is_loser = False, keep_rate = 1\<rparr>"

datatype Vote = Vote (preferences: "string list")

text \<open>
  The state of \<^verbatim>\<open>SingleTransferableVote\<close>. The attribute \<^verbatim>\<open>self.votes\<close> (the list of
  ballots) is the field \<open>ballots\<close>, since \<open>votes\<close> is the field of a candidate.
\<close>

record SingleTransferableVote =
  candidates :: "Candidate list"
  ballots :: "Vote list"
  num_winners :: int
  droop_quota :: int
  verbose :: bool

definition MAX_ITERATIONS :: nat where
  "MAX_ITERATIONS = 1000"

text \<open>The literal \<^verbatim>\<open>1e-9\<close> is the double nearest to \<open>10\<^sup>-\<^sup>9\<close>.\<close>

definition CONVERGENCE_THRESHOLD :: real where
  "CONVERGENCE_THRESHOLD = fl (1 / 1000000000)"

text \<open>The test \<^verbatim>\<open>not c.is_winner and not c.is_loser\<close>: the candidate is Active.\<close>

definition active :: "Candidate \<Rightarrow> bool" where
  "active c = (\<not> is_winner c \<and> \<not> is_loser c)"

text \<open>
  \<^verbatim>\<open>list(dict.fromkeys(xs))\<close>, also the key order of a dict comprehension: the distinct
  elements in the order of their first occurrence.
\<close>

definition dict_fromkeys :: "'a list \<Rightarrow> 'a list" where
  "dict_fromkeys xs = rev (remdups (rev xs))"

text \<open>\<^verbatim>\<open>SingleTransferableVote.__init__\<close>\<close>

definition init :: "string list \<Rightarrow> int \<Rightarrow> bool \<Rightarrow> SingleTransferableVote" where
  "init candidate_names nw vb =
     \<lparr>candidates = map Candidate_init (dict_fromkeys candidate_names),
      ballots = [], num_winners = nw, droop_quota = 0, verbose = vb\<rparr>"

subsection \<open>Loading ballots\<close>

text \<open>
  \<^verbatim>\<open>str.isspace\<close> on the code points below 256, and \<^verbatim>\<open>str.strip()\<close>. A character of
  the model is one code point of the decoded line.
\<close>

definition isspace :: "char \<Rightarrow> bool" where
  "isspace c = (c \<in> set [CHR 0x09, CHR 0x0A, CHR 0x0B, CHR 0x0C, CHR 0x0D,
                          CHR 0x1C, CHR 0x1D, CHR 0x1E, CHR 0x1F, CHR 0x20,
                          CHR 0x85, CHR 0xA0])"

definition strip :: "string \<Rightarrow> string" where
  "strip s = rev (dropWhile isspace (rev (dropWhile isspace s)))"

text \<open>The body of the loop over the lines of the file in \<^verbatim>\<open>_load_data\<close>.\<close>

definition load_line :: "string \<Rightarrow> SingleTransferableVote \<Rightarrow> SingleTransferableVote" where
  "load_line raw s =
     (let line = strip raw in
      if line = [] then s
      else
        let prefs = map (\<lambda>c. [c]) line;
            unique_prefs = dict_fromkeys prefs
        in if length prefs \<noteq> length unique_prefs
              \<or> \<not> list_all (\<lambda>p. p \<in> set (map name (candidates s))) prefs
           then s
           else s\<lparr>ballots := ballots s @ [Vote prefs]\<rparr>)"

text \<open>
  \<^verbatim>\<open>_load_data\<close>. The file is its list of lines, or \<open>None\<close> when opening it raises
  \<^verbatim>\<open>FileNotFoundError\<close>.
\<close>

definition load_data ::
  "string list option \<Rightarrow> SingleTransferableVote \<Rightarrow> SingleTransferableVote" where
  "load_data file s =
     (case file of
        None \<Rightarrow> s\<lparr>ballots := []\<rparr>
      | Some lines \<Rightarrow> fold load_line lines s)"

subsection \<open>The quota\<close>

text \<open>
  \<^verbatim>\<open>_calculate_droop_quota\<close>: true division of two integers, which raises when the
  divisor is zero, then \<^verbatim>\<open>math.floor\<close>. The quotient is taken exactly: the floor of
  the rounded quotient is the same for every number of ballots below \<open>2\<^sup>5\<^sup>3\<close> and
  \<^verbatim>\<open>num_winners\<close> at least 0.
\<close>

definition calculate_droop_quota ::
  "SingleTransferableVote \<Rightarrow> py_error + SingleTransferableVote" where
  "calculate_droop_quota s =
     (if num_winners s + 1 = 0 then Inl ZeroDivisionError
      else Inr (s\<lparr>droop_quota :=
                  \<lfloor>real (length (ballots s)) / real_of_int (num_winners s + 1)\<rfloor> + 1\<rparr>))"

subsection \<open>The redistribution engine\<close>

text \<open>\<^verbatim>\<open>self.candidates[pref_name]\<close>: the position of the candidate with that key.\<close>

fun index_of :: "string \<Rightarrow> Candidate list \<Rightarrow> nat option" where
  "index_of n [] = None"
| "index_of n (c # cs) = (if name c = n then Some 0 else map_option Suc (index_of n cs))"

text \<open>
  The inner loop of \<^verbatim>\<open>_recalculate_votes\<close> over the preferences of one ballot, from the
  current \<^verbatim>\<open>vote_value\<close>. It returns the ledger and the \<^verbatim>\<open>vote_value\<close> left when the
  loop ends (the source drops that value).
\<close>

fun walk_ballot ::
  "string list \<Rightarrow> real \<Rightarrow> Candidate list \<Rightarrow> py_error + (Candidate list \<times> real)" where
  "walk_ballot [] vote_value cs = Inr (cs, vote_value)"
| "walk_ballot (pref_name # ps) vote_value cs =
     (if vote_value < CONVERGENCE_THRESHOLD then Inr (cs, vote_value)
      else
        case index_of pref_name cs of
          None \<Rightarrow> Inl KeyError
        | Some i \<Rightarrow>
            let candidate = cs ! i;
                current_keep_rate = (if active candidate then keep_rate candidate else 0);
                transfer_value = fl (vote_value * current_keep_rate)
            in walk_ballot ps (fl (vote_value - transfer_value))
                 (cs[i := candidate\<lparr>votes := fl (votes candidate + transfer_value)\<rparr>]))"

text \<open>
  The outer loop over the ballots. Beside the ledger it returns the list of the values
  left on each ballot, in ballot order.
\<close>

fun count_ballots ::
  "Vote list \<Rightarrow> Candidate list \<Rightarrow> py_error + (Candidate list \<times> real list)" where
  "count_ballots [] cs = Inr (cs, [])"
| "count_ballots (vote # vs) cs =
     (case walk_ballot (preferences vote) 1 cs of
        Inl e \<Rightarrow> Inl e
      | Inr (cs', left) \<Rightarrow>
          (case count_ballots vs cs' of
             Inl e \<Rightarrow> Inl e
           | Inr (cs'', lefts) \<Rightarrow> Inr (cs'', left # lefts)))"

definition reset_votes :: "Candidate list \<Rightarrow> Candidate list" where
  "reset_votes cs = map (\<lambda>c. c\<lparr>votes := 0\<rparr>) cs"

text \<open>\<^verbatim>\<open>_recalculate_votes\<close>\<close>

definition recalculate_votes ::
  "SingleTransferableVote \<Rightarrow> py_error + SingleTransferableVote" where
  "recalculate_votes s =
     (case count_ballots (ballots s) (reset_votes (candidates s)) of
        Inl e \<Rightarrow> Inl e
      | Inr (cs, lefts) \<Rightarrow> Inr (s\<lparr>candidates := cs\<rparr>))"

subsection \<open>The convergence loop\<close>

text \<open>Lines 96 to 98: the keep rate of every Active candidate is set to 1.\<close>

definition reset_keep_rates :: "Candidate list \<Rightarrow> Candidate list" where
  "reset_keep_rates cs = map (\<lambda>c. if active c then c\<lparr>keep_rate := 1\<rparr> else c) cs"

text \<open>
  Lines 106 to 108: the keep rate of an Active candidate over the quota is multiplied by
  \<^verbatim>\<open>droop_quota / votes\<close>; the division raises when \<^verbatim>\<open>votes\<close> is zero. The test compares
  the float with the integer exactly; the division first converts the integer to the
  nearest double.
\<close>

fun shrink_keep_rates :: "int \<Rightarrow> Candidate list \<Rightarrow> py_error + Candidate list" where
  "shrink_keep_rates q [] = Inr []"
| "shrink_keep_rates q (c # cs) =
     (if active c \<and> votes c > real_of_int q then
        (if votes c = 0 then Inl ZeroDivisionError
         else
           case shrink_keep_rates q cs of
             Inl e \<Rightarrow> Inl e
           | Inr cs' \<Rightarrow>
               Inr (c\<lparr>keep_rate := fl (keep_rate c * fl (fl (real_of_int q) / votes c))\<rparr> # cs'))
      else
        case shrink_keep_rates q cs of
          Inl e \<Rightarrow> Inl e
        | Inr cs' \<Rightarrow> Inr (c # cs'))"

text \<open>
  Line 110, with \<open>prev\<close> the items of the dictionary \<^verbatim>\<open>previous_keep_rates\<close> in
  insertion order (a later item for the same key wins). \<^verbatim>\<open>sum\<close> adds the terms from left
  to right, starting from 0, and each addition is rounded (CPython before 3.12; later
  versions also compensate the rounding errors of these additions).
\<close>

definition rate_changed :: "(string \<times> real) list \<Rightarrow> Candidate list \<Rightarrow> real" where
  "rate_changed prev cs =
     foldl (\<lambda>acc d. fl (acc + d)) 0
       (map (\<lambda>c. \<bar>fl (keep_rate c -
                          (case map_of (rev prev) (name c) of None \<Rightarrow> 0 | Some r \<Rightarrow> r))\<bar>) cs)"

text \<open>
  One pass of the body of the \<^verbatim>\<open>for i in range(MAX_ITERATIONS)\<close> loop, lines 103 to 110:
  the new state and the value of \<^verbatim>\<open>rate_changed\<close>.
\<close>

definition meek_step ::
  "SingleTransferableVote \<Rightarrow> py_error + (SingleTransferableVote \<times> real)" where
  "meek_step s =
     (let previous_keep_rates = map (\<lambda>c. (name c, keep_rate c)) (candidates s) in
      case recalculate_votes s of
        Inl e \<Rightarrow> Inl e
      | Inr s1 \<Rightarrow>
          (case shrink_keep_rates (droop_quota s1) (candidates s1) of
             Inl e \<Rightarrow> Inl e
           | Inr cs \<Rightarrow> Inr (s1\<lparr>candidates := cs\<rparr>, rate_changed previous_keep_rates cs)))"

text \<open>The loop itself; the first argument is the number of passes left.\<close>

fun meek_loop :: "nat \<Rightarrow> SingleTransferableVote \<Rightarrow> py_error + SingleTransferableVote" where
  "meek_loop 0 s = Inr s"
| "meek_loop (Suc n) s =
     (case meek_step s of
        Inl e \<Rightarrow> Inl e
      | Inr (s', changed) \<Rightarrow>
          if changed < CONVERGENCE_THRESHOLD then Inr s' else meek_loop n s')"

text \<open>\<^verbatim>\<open>_run_meek_iteration\<close>\<close>

definition run_meek_iteration ::
  "SingleTransferableVote \<Rightarrow> py_error + SingleTransferableVote" where
  "run_meek_iteration s =
     (case meek_loop MAX_ITERATIONS (s\<lparr>candidates := reset_keep_rates (candidates s)\<rparr>) of
        Inl e \<Rightarrow> Inl e
      | Inr s' \<Rightarrow> recalculate_votes s')"

subsection \<open>Rounds\<close>

text \<open>
  The list \<^verbatim>\<open>[c for c in self.candidates.values() if not c.is_winner and not c.is_loser]\<close>,
  as the positions of the objects it holds.
\<close>

definition active_candidates :: "Candidate list \<Rightarrow> nat list" where
  "active_candidates cs = filter (\<lambda>i. active (cs ! i)) [0..<length cs]"

text \<open>A loop that assigns to the object at each position of a list of references.\<close>

definition for_each :: "(Candidate \<Rightarrow> Candidate) \<Rightarrow> nat list \<Rightarrow> Candidate list \<Rightarrow> Candidate list" where
  "for_each f refs cs = fold (\<lambda>i cs. cs[i := f (cs ! i)]) refs cs"

text \<open>\<^verbatim>\<open>_eliminate_loser\<close>\<close>

definition eliminate_loser :: "SingleTransferableVote \<Rightarrow> SingleTransferableVote" where
  "eliminate_loser s =
     (let cs = candidates s; active_cands = active_candidates cs in
      if active_cands = [] then s
      else
        let min_votes = min_list (map (\<lambda>i. votes (cs ! i)) active_cands)
        in s\<lparr>candidates :=
               for_each (\<lambda>c. if \<bar>fl (votes c - min_votes)\<bar> < CONVERGENCE_THRESHOLD
                              then c\<lparr>is_loser := True\<rparr> else c)
                 active_cands cs\<rparr>)"

text \<open>\<^verbatim>\<open>_elect_winners\<close>: defined in the source, called from nowhere.\<close>

definition elect_winners :: "SingleTransferableVote \<Rightarrow> SingleTransferableVote \<times> bool" where
  "elect_winners s =
     (let cs = candidates s;
          sorted_cands = sort_key (\<lambda>i. - votes (cs ! i)) (active_candidates cs)
      in (s\<lparr>candidates :=
              for_each (\<lambda>c. if votes c > real_of_int (droop_quota s)
                             then c\<lparr>is_winner := True\<rparr> else c)
                sorted_cands cs\<rparr>,
          list_ex (\<lambda>i. votes (cs ! i) > real_of_int (droop_quota s)) sorted_cands))"

text \<open>\<^verbatim>\<open>_run_single_round\<close>\<close>

definition run_single_round ::
  "SingleTransferableVote \<Rightarrow> py_error + SingleTransferableVote" where
  "run_single_round s =
     (case run_meek_iteration s of
        Inl e \<Rightarrow> Inl e
      | Inr s' \<Rightarrow> Inr (eliminate_loser s'))"

text \<open>Lines 79 to 82: the decision on one candidate of the last round.\<close>

definition decide :: "int \<Rightarrow> Candidate \<Rightarrow> Candidate" where
  "decide q c = (if votes c > real_of_int q then c\<lparr>is_winner := True\<rparr> else c\<lparr>is_loser := True\<rparr>)"

text \<open>
  Lines 74 to 83, the branch of \<^verbatim>\<open>_run_main_loop\<close> taken when no more than
  \<^verbatim>\<open>num_winners\<close> candidates are Active. The list \<^verbatim>\<open>active_candidates\<close> is the one of
  line 71, built before the convergence loop runs; it is sorted by the votes after it.
\<close>

definition final_round :: "SingleTransferableVote \<Rightarrow> py_error + SingleTransferableVote" where
  "final_round s =
     (let active_cands = active_candidates (candidates s) in
      case run_meek_iteration s of
        Inl e \<Rightarrow> Inl e
      | Inr s' \<Rightarrow>
          Inr (s'\<lparr>candidates :=
                 for_each (decide (droop_quota s'))
                   (sort_key (\<lambda>i. - votes (candidates s' ! i)) active_cands)
                   (candidates s')\<rparr>))"

text \<open>
  \<^verbatim>\<open>_run_main_loop\<close>. The counter \<^verbatim>\<open>round_num\<close> is only printed and is left out.
\<close>

partial_function (option) run_main_loop ::
  "SingleTransferableVote \<Rightarrow> (py_error + SingleTransferableVote) option" where
  "run_main_loop s =
     (if int (length (active_candidates (candidates s))) \<le> num_winners s
      then Some (final_round s)
      else
        case run_single_round s of
          Inl e \<Rightarrow> Some (Inl e)
        | Inr s' \<Rightarrow> run_main_loop s')"

declare run_main_loop.simps [code]

text \<open>
  \<^verbatim>\<open>run_election\<close>, from the content of the file. With no valid ballot it returns
  right after loading.
\<close>

definition run_election ::
  "string list option \<Rightarrow> SingleTransferableVote \<Rightarrow> (py_error + SingleTransferableVote) option" where
  "run_election file s =
     (let s0 = load_data file s in
      if ballots s0 = [] then Some (Inr s0)
      else
        case calculate_droop_quota s0 of
          Inl e \<Rightarrow> Some (Inl e)
        | Inr s1 \<Rightarrow> run_main_loop s1)"

subsection \<open>The scenario of the specification\<close>

abbreviation (input) cand :: "string \<Rightarrow> real \<Rightarrow> bool \<Rightarrow> bool \<Rightarrow> real \<Rightarrow> Candidate" where
  "cand n v w l k \<equiv> \<lparr>name = n, votes = v, is_winner = w, is_loser = l, keep_rate = k\<rparr>"

text \<open>The four lines of the ballot file, each with its line feed.\<close>

abbreviation (input) scenario_file :: "string list option" where
  "scenario_file \<equiv>
     Some [''AB'' @ [CHR 0x0A], ''AB'' @ [CHR 0x0A], ''B'' @ [CHR 0x0A], ''C'' @ [CHR 0x0A]]"

abbreviation (input) scenario_ballots :: "Vote list" where
  "scenario_ballots \<equiv> [Vote [''A'', ''B''], Vote [''A'', ''B''], Vote [''B''], Vote [''C'']]"

abbreviation (input) scenario_state :: "Candidate list \<Rightarrow> SingleTransferableVote" where
  "scenario_state cs \<equiv>
     \<lparr>candidates = cs, ballots = scenario_ballots, num_winners = 1, droop_quota = 3,
      verbose = False\<rparr>"

subsection \<open>Notions used in the statements\<close>

text \<open>The key and the status flags of every candidate, in ledger order.\<close>

definition statuses :: "Candidate list \<Rightarrow> (string \<times> bool \<times> bool) list" where
  "statuses cs = map (\<lambda>c. (name c, is_winner c, is_loser c)) cs"

text \<open>
  \<open>round_head s t\<close>: the loop of \<^verbatim>\<open>_run_main_loop\<close>, entered in state \<open>s\<close>, is at the
  head of an iteration in state \<open>t\<close>. Each step is one pass through the branch that calls
  \<^verbatim>\<open>_run_single_round\<close>.
\<close>

inductive round_head :: "SingleTransferableVote \<Rightarrow> SingleTransferableVote \<Rightarrow> bool"
  for s :: SingleTransferableVote where
  start: "round_head s s"
| next_round: "round_head s t \<Longrightarrow>
     \<not> int (length (active_candidates (candidates t))) \<le> num_winners t \<Longrightarrow>
     run_single_round t = Inr u \<Longrightarrow> round_head s u"

text \<open>
  The states of one run of the \<^verbatim>\<open>for\<close> loop of \<^verbatim>\<open>_run_meek_iteration\<close>: the state at the
  start of each pass that runs, then the state in which the loop ends (by \<^verbatim>\<open>break\<close>, at
  the cap, or where a pass raises).
\<close>

fun meek_trace :: "nat \<Rightarrow> SingleTransferableVote \<Rightarrow> SingleTransferableVote list" where
  "meek_trace 0 s = [s]"
| "meek_trace (Suc n) s =
     s # (case meek_step s of
            Inl e \<Rightarrow> []
          | Inr (s', changed) \<Rightarrow>
              if changed < CONVERGENCE_THRESHOLD then [s'] else meek_trace n s')"

text \<open>From \<open>s\<close> to \<open>s'\<close> no candidate's keep rate grows.\<close>

definition keep_rates_shrink :: "SingleTransferableVote \<Rightarrow> SingleTransferableVote \<Rightarrow> bool" where
  "keep_rates_shrink s s' =
     list_all2 (\<lambda>c c'. name c' = name c \<and> keep_rate c' \<le> keep_rate c)
       (candidates s) (candidates s')"

text \<open>The keep rate of every Active candidate is a double and is not negative.\<close>

definition keep_ok :: "Candidate list \<Rightarrow> bool" where
  "keep_ok cs = (\<forall>c \<in> set cs. active c \<longrightarrow> 0 \<le> keep_rate c \<and> fl (keep_rate c) = keep_rate c)"

text \<open>
  The invariant of the ballot store: every preference of every ballot is the key of a
  candidate of the ledger. \<^verbatim>\<open>_load_data\<close> only stores such ballots.
\<close>

definition valid_ballots :: "SingleTransferableVote \<Rightarrow> bool" where
  "valid_ballots s =
     (\<forall>b \<in> set (ballots s). \<forall>p \<in> set (preferences b). p \<in> set (map name (candidates s)))"

text \<open>
  \<open>run_point s t\<close>: the state \<open>t\<close> is reached from \<open>s\<close> by some sequence of the
  operations that a run performs on the ledger. The guards of the control flow are
  dropped, so this covers every point of every run that passes through \<open>s\<close>, between
  any two calls, and more.
\<close>

inductive run_point :: "SingleTransferableVote \<Rightarrow> SingleTransferableVote \<Rightarrow> bool"
  for s :: SingleTransferableVote where
  here: "run_point s s"
| recalculated: "run_point s t \<Longrightarrow> recalculate_votes t = Inr u \<Longrightarrow> run_point s u"
| stepped: "run_point s t \<Longrightarrow> meek_step t = Inr (u, changed) \<Longrightarrow> run_point s u"
| iterated: "run_point s t \<Longrightarrow> run_meek_iteration t = Inr u \<Longrightarrow> run_point s u"
| eliminated: "run_point s t \<Longrightarrow> run_point s (eliminate_loser t)"
| decided: "run_point s t \<Longrightarrow> final_round t = Inr u \<Longrightarrow> run_point s u"

text \<open>
  From \<open>cs\<close> to \<open>cs'\<close> every candidate that is not Active keeps its two flags, and an
  Active one does not end up with both.
\<close>

definition status_kept :: "Candidate list \<Rightarrow> Candidate list \<Rightarrow> bool" where
  "status_kept cs cs' =
     list_all2 (\<lambda>c c'. name c' = name c \<and>
                  (if active c then \<not> (is_winner c' \<and> is_loser c')
                   else is_winner c' = is_winner c \<and> is_loser c' = is_loser c)) cs cs'"

section \<open>Auxiliary facts\<close>

subsection \<open>Rounding to a double\<close>

lemma expo_bounds:
  assumes "x \<noteq> 0"
  shows "2 powi expo x \<le> \<bar>x\<bar> \<and> \<bar>x\<bar> < 2 powi (expo x + 1)"
proof (cases "1 \<le> \<bar>x\<bar>")
  case True
  let ?n = "\<lfloor>\<bar>x\<bar>\<rfloor>"
  from True have n: "0 < ?n" by linarith
  then have b1: "1 \<le> bitlen ?n" by (simp add: bitlen_alt_def)
  have e: "expo x = bitlen ?n - 1" using True by (simp add: expo_def)
  from bitlen_bounds[OF n] have b: "2 ^ nat (bitlen ?n - 1) \<le> ?n" "?n < 2 ^ nat (bitlen ?n)"
    by auto
  from b(1) have "(2::real) ^ nat (bitlen ?n - 1) \<le> of_int ?n"
    by (simp only: numeral_power_le_of_int_cancel_iff)
  also have "\<dots> \<le> \<bar>x\<bar>" by simp
  finally have l: "2 powi expo x \<le> \<bar>x\<bar>" using b1 by (simp add: e power_int_def)
  from b(2) have "\<bar>x\<bar> < 2 ^ nat (bitlen ?n)" by (simp add: floor_less_iff)
  then have "\<bar>x\<bar> < 2 powi (expo x + 1)" using b1 by (simp add: e power_int_def)
  with l show ?thesis by simp
next
  case False
  let ?y = "1 / \<bar>x\<bar>"
  let ?m = "\<lceil>?y\<rceil> - 1"
  from False assms have y: "1 < ?y" by simp
  then have m: "0 < ?m" by linarith
  then have b1: "1 \<le> bitlen ?m" by (simp add: bitlen_alt_def)
  have e: "expo x = - bitlen ?m" using False by (simp add: expo_def)
  from bitlen_bounds[OF m] have b: "2 ^ nat (bitlen ?m - 1) \<le> ?m" "?m < 2 ^ nat (bitlen ?m)"
    by auto
  have xpos: "0 < \<bar>x\<bar>" using assms by simp
  from b(2) have "\<lceil>?y\<rceil> \<le> 2 ^ nat (bitlen ?m)" by simp
  then have "?y \<le> 2 ^ nat (bitlen ?m)" by (simp add: ceiling_le_iff)
  then have "1 \<le> 2 ^ nat (bitlen ?m) * \<bar>x\<bar>" using xpos by (simp add: field_simps)
  then have l: "2 powi expo x \<le> \<bar>x\<bar>" using b1
    by (simp add: e power_int_def field_simps)
  from b(1) have "(2::real) ^ nat (bitlen ?m - 1) \<le> of_int ?m"
    by (simp only: numeral_power_le_of_int_cancel_iff)
  also have "\<dots> < ?y" by linarith
  finally have u: "2 ^ nat (bitlen ?m - 1) * \<bar>x\<bar> < 1" using xpos by (simp add: field_simps)
  have "expo x + 1 = - (bitlen ?m - 1)" by (simp add: e)
  then have "(2::real) powi (expo x + 1) = inverse (2 powi (bitlen ?m - 1))"
    by (simp only: power_int_minus)
  also have "\<dots> = 1 / (2 ^ nat (bitlen ?m - 1))" using b1
    by (simp add: power_int_def inverse_eq_divide)
  finally have pw: "(2::real) powi (expo x + 1) = 1 / (2 ^ nat (bitlen ?m - 1))" .
  have "(0::real) < 2 ^ nat (bitlen ?m - 1)" by simp
  with u have "\<bar>x\<bar> < 1 / (2 ^ nat (bitlen ?m - 1))"
    by (simp add: pos_less_divide_eq mult.commute)
  then have "\<bar>x\<bar> < 2 powi (expo x + 1)" by (simp only: pw)
  with l show ?thesis by simp
qed

lemma expo_unique:
  assumes "2 powi e \<le> \<bar>x\<bar>" and "\<bar>x\<bar> < 2 powi (e + 1)"
  shows "expo x = e"
proof -
  have p: "(0::real) < 2 powi e" by simp
  from assms(1) p have "0 < \<bar>x\<bar>" by linarith
  then have x: "x \<noteq> 0" by simp
  from expo_bounds[OF x] assms have a: "(2::real) powi e < 2 powi (expo x + 1)"
    and b: "(2::real) powi expo x < 2 powi (e + 1)" by linarith+
  have "e < expo x + 1"
  proof (rule ccontr)
    assume "\<not> e < expo x + 1"
    then have "expo x + 1 \<le> e" by simp
    from power_int_increasing[OF this, of "2::real"] a show False by simp
  qed
  moreover have "expo x < e + 1"
  proof (rule ccontr)
    assume "\<not> expo x < e + 1"
    then have "e + 1 \<le> expo x" by simp
    from power_int_increasing[OF this, of "2::real"] b show False by simp
  qed
  ultimately show ?thesis by simp
qed

lemma expo_pow2:
  assumes "\<bar>x\<bar> = 2 powi e"
  shows "expo x = e"
proof (rule expo_unique)
  show "2 powi e \<le> \<bar>x\<bar>" using assms by simp
  have "(2::real) powi e < 2 powi (e + 1)" by (rule power_int_strict_increasing) simp_all
  with assms show "\<bar>x\<bar> < 2 powi (e + 1)" by simp
qed

lemma expo_mono:
  assumes "x \<noteq> 0" and "\<bar>x\<bar> \<le> \<bar>y\<bar>"
  shows "expo x \<le> expo y"
proof (rule ccontr)
  assume "\<not> expo x \<le> expo y"
  then have "expo y + 1 \<le> expo x" by simp
  from power_int_increasing[OF this, of "2::real"]
  have "(2::real) powi (expo y + 1) \<le> 2 powi expo x" by simp
  moreover from assms have "y \<noteq> 0" by auto
  ultimately show False using expo_bounds[OF assms(1)] expo_bounds[of y] assms(2) by linarith
qed

lemma expo_less:
  assumes "x \<noteq> 0" and "\<bar>x\<bar> < 2 powi n"
  shows "expo x < n"
proof (rule ccontr)
  assume "\<not> expo x < n"
  then have "n \<le> expo x" by simp
  from power_int_increasing[OF this, of "2::real"] expo_bounds[OF assms(1)] assms(2)
  show False by simp
qed

lemma round_even_cases: "round_even r = \<lfloor>r\<rfloor> \<or> round_even r = \<lfloor>r\<rfloor> + 1"
  by (simp add: round_even_def Let_def)

lemma round_even_of_int [simp]: "round_even (of_int n) = n"
  by (simp add: round_even_def)

lemma round_even_mono:
  assumes "r \<le> s"
  shows "round_even r \<le> round_even s"
proof (cases "\<lfloor>r\<rfloor> = \<lfloor>s\<rfloor>")
  case True
  with assms show ?thesis by (auto simp: round_even_def Let_def)
next
  case False
  from assms have "\<lfloor>r\<rfloor> \<le> \<lfloor>s\<rfloor>" by (rule floor_mono)
  with False have "\<lfloor>r\<rfloor> + 1 \<le> \<lfloor>s\<rfloor>" by simp
  with round_even_cases[of r] round_even_cases[of s] show ?thesis by auto
qed

lemma round_even_error: "\<bar>of_int (round_even r) - r\<bar> \<le> 1 / 2"
proof -
  define f where "f = \<lfloor>r\<rfloor>"
  have b: "of_int f \<le> r" "r < of_int f + 1" unfolding f_def by linarith+
  have "(round_even r = f \<and> r - of_int f \<le> 1 / 2)
      \<or> (round_even r = f + 1 \<and> 1 / 2 \<le> r - of_int f)"
    by (auto simp: round_even_def Let_def f_def)
  then show ?thesis
  proof
    assume a: "round_even r = f \<and> r - of_int f \<le> 1 / 2"
    then have "of_int (round_even r) - r = of_int f - r" by simp
    with a b show ?thesis by linarith
  next
    assume a: "round_even r = f + 1 \<and> 1 / 2 \<le> r - of_int f"
    then have "of_int (round_even r) - r = of_int f + 1 - r" by simp
    with a b show ?thesis by linarith
  qed
qed

lemma fl_alt: "fl x = of_int (round_even (x / 2 powi ulp_exp x)) * 2 powi ulp_exp x"
  by (simp add: fl_def Let_def)

lemma fl_0 [simp]: "fl 0 = 0"
  by (simp add: fl_alt round_even_def)

lemma ulp_exp_mono: "x \<noteq> 0 \<Longrightarrow> \<bar>x\<bar> \<le> \<bar>y\<bar> \<Longrightarrow> ulp_exp x \<le> ulp_exp y"
  using expo_mono[of x y] by (simp add: ulp_exp_def)

lemma ulp_exp_ge: "- 1074 \<le> ulp_exp x"
  by (simp add: ulp_exp_def)

lemma pow2_split:
  assumes "u \<le> e"
  shows "(2::real) powi e = of_int (2 ^ nat (e - u)) * 2 powi u"
proof -
  have "(2::real) powi e = 2 powi ((e - u) + u)" by simp
  also have "\<dots> = 2 powi (e - u) * 2 powi u" by (rule power_int_add) simp
  also have "(2::real) powi (e - u) = of_int (2 ^ nat (e - u))" using assms
    by (simp add: power_int_def)
  finally show ?thesis .
qed

lemma fl_exact:
  assumes "x = of_int n * 2 powi e" and "ulp_exp x \<le> e"
  shows "fl x = x"
proof -
  let ?u = "ulp_exp x"
  have "x = of_int (n * 2 ^ nat (e - ?u)) * 2 powi ?u"
    by (subst assms(1), subst pow2_split[OF assms(2)]) simp
  moreover from this have "x / 2 powi ?u = of_int (n * 2 ^ nat (e - ?u))"
    by (simp add: field_simps)
  ultimately show ?thesis by (simp only: fl_alt round_even_of_int)
qed

lemma double_multiple:
  assumes "fl k = k" and "e \<le> ulp_exp k"
  shows "\<exists>n. k = of_int n * 2 powi e"
proof -
  from assms(1) have "k = of_int (round_even (k / 2 powi ulp_exp k)) * 2 powi ulp_exp k"
    by (simp add: fl_alt)
  also have "\<dots> = of_int (round_even (k / 2 powi ulp_exp k) * 2 ^ nat (ulp_exp k - e)) * 2 powi e"
    by (subst pow2_split[OF assms(2)]) simp
  finally show ?thesis by blast
qed

lemma fl_nonneg:
  assumes "0 \<le> x"
  shows "0 \<le> fl x"
proof -
  from assms have "0 \<le> x / 2 powi ulp_exp x" by simp
  from round_even_mono[OF this] have "0 \<le> round_even (x / 2 powi ulp_exp x)"
    by (simp add: round_even_def)
  then show ?thesis by (simp add: fl_alt)
qed

lemma fl_le:
  assumes "0 \<le> x" and "x \<le> k" and "fl k = k"
  shows "fl x \<le> k"
proof (cases "x = 0")
  case True
  with assms show ?thesis by simp
next
  case False
  let ?g = "(2::real) powi ulp_exp x"
  from assms have "\<bar>x\<bar> \<le> \<bar>k\<bar>" by simp
  from double_multiple[OF assms(3) ulp_exp_mono[OF False this]]
  obtain n where n: "k = of_int n * ?g" by blast
  have g: "0 < ?g" by simp
  from assms(2) g have "x / ?g \<le> k / ?g" by (simp add: divide_right_mono)
  also have "k / ?g = of_int n" using n g by simp
  finally have "round_even (x / ?g) \<le> n" using round_even_mono[of "x / ?g" "of_int n"] by simp
  then have "of_int (round_even (x / ?g)) * ?g \<le> of_int n * ?g" using g by simp
  then show ?thesis by (simp only: fl_alt n)
qed

lemma fl_int:
  assumes "\<bar>n\<bar> \<le> 2 ^ 53"
  shows "fl (of_int n) = of_int n"
proof (cases "\<bar>n\<bar> = 2 ^ 53")
  case True
  let ?s = "if 0 \<le> n then 1 else - 1 :: int"
  from True have n: "n = ?s * 2 ^ 53" by (auto simp: abs_if)
  have x: "(of_int n :: real) = of_int ?s * 2 powi 53" by (subst n) simp
  have "\<bar>of_int n :: real\<bar> = 2 powi 53" by (subst n) (simp add: abs_mult)
  then have "expo (of_int n) = 53" by (intro expo_unique) simp_all
  then have "ulp_exp (of_int n) \<le> 53" by (simp add: ulp_exp_def)
  with x show ?thesis by (rule fl_exact)
next
  case False
  show ?thesis
  proof (cases "n = 0")
    case True
    then show ?thesis by simp
  next
    case n0: False
    from False assms have "\<bar>n\<bar> < 2 ^ 53" by simp
    then have "\<bar>of_int n :: real\<bar> < 2 powi 53"
      by (metis of_int_abs of_int_less_numeral_power_cancel_iff power_int_numeral)
    with n0 have "expo (of_int n) < 53" by (intro expo_less) simp_all
    then have "ulp_exp (of_int n) \<le> 0" by (simp add: ulp_exp_def)
    moreover have "(of_int n :: real) = of_int n * 2 powi 0" by simp
    ultimately show ?thesis by (intro fl_exact)
  qed
qed

lemma fl_1 [simp]: "fl 1 = 1"
  using fl_int[of 1] by simp

lemma fl_idem [simp]: "fl (fl x) = fl x"
proof (cases "x = 0")
  case True
  then show ?thesis by simp
next
  case False
  let ?u = "ulp_exp x"
  let ?g = "(2::real) powi ?u"
  let ?N = "round_even (x / ?g)"
  have g: "0 < ?g" by simp
  have y: "fl x = of_int ?N * ?g" by (rule fl_alt)
  have "expo x + 1 \<le> ?u + 53" by (simp add: ulp_exp_def)
  from power_int_increasing[OF this, of "2::real"] expo_bounds[OF False]
  have "\<bar>x\<bar> < 2 powi (?u + 53)" by simp
  also have "\<dots> = 2 ^ 53 * ?g" by (subst power_int_add) simp_all
  finally have "\<bar>x\<bar> / ?g < 2 ^ 53" using g by (simp add: pos_divide_less_eq)
  then have "\<bar>x / ?g\<bar> < 2 ^ 53" by (simp add: abs_divide abs_of_pos)
  then have "x / ?g \<le> 2 ^ 53" "- (2 ^ 53) \<le> x / ?g" by linarith+
  then have "x / ?g \<le> of_int (2 ^ 53)" "of_int (- (2 ^ 53)) \<le> x / ?g" by simp_all
  from round_even_mono[OF this(1)] round_even_mono[OF this(2)]
  have N: "?N \<le> 2 ^ 53" "- (2 ^ 53) \<le> ?N" by (simp_all only: round_even_of_int)
  show ?thesis
  proof (cases "\<bar>?N\<bar> = 2 ^ 53")
    case True
    let ?s = "if 0 \<le> ?N then 1 else - 1 :: int"
    from True have n: "?N = ?s * 2 ^ 53" by (auto simp: abs_if)
    have "fl x = of_int (?s * 2 ^ 53) * ?g" by (subst y, subst n) simp
    also have "\<dots> = of_int ?s * (2 ^ 53 * ?g)" by simp
    also have "2 ^ 53 * ?g = 2 powi (?u + 53)" by (subst power_int_add) simp_all
    finally have e: "fl x = of_int ?s * 2 powi (?u + 53)" .
    then have "\<bar>fl x\<bar> = 2 powi (?u + 53)" by (simp add: abs_mult)
    then have "expo (fl x) = ?u + 53" by (rule expo_pow2)
    then have "ulp_exp (fl x) \<le> ?u + 53" using ulp_exp_ge[of x] by (simp add: ulp_exp_def)
    with e show ?thesis by (rule fl_exact)
  next
    case nb: False
    show ?thesis
    proof (cases "fl x = 0")
      case True
      then show ?thesis by simp
    next
      case nz: False
      from nb N have "\<bar>?N\<bar> < 2 ^ 53" by simp
      then have "\<bar>of_int ?N :: real\<bar> < 2 ^ 53"
        by (metis of_int_abs of_int_less_numeral_power_cancel_iff)
      then have "\<bar>fl x\<bar> < 2 ^ 53 * ?g" using g by (simp add: y abs_mult)
      also have "2 ^ 53 * ?g = 2 powi (?u + 53)" by (subst power_int_add) simp_all
      finally have "expo (fl x) < ?u + 53" using nz by (intro expo_less)
      then have "ulp_exp (fl x) \<le> ?u" using ulp_exp_ge[of x] by (simp add: ulp_exp_def)
      with y show ?thesis by (rule fl_exact)
    qed
  qed
qed

lemma double_grid:
  assumes "fl k = k"
  shows "\<exists>n. k = of_int n * 2 powi (- 1074)"
  using double_multiple[OF assms ulp_exp_ge] .

lemma fl_error_grid:
  assumes "x = of_int n * 2 powi (- 1074)"
  shows "\<bar>fl x - x\<bar> \<le> \<bar>x\<bar> / 2 ^ 53"
proof (cases "x = 0 \<or> expo x - 52 \<le> - 1074")
  case True
  then have "fl x = x"
  proof
    assume "x = 0"
    then show ?thesis by simp
  next
    assume "expo x - 52 \<le> - 1074"
    then have "ulp_exp x \<le> - 1074" by (simp add: ulp_exp_def)
    with assms show ?thesis by (rule fl_exact)
  qed
  then show ?thesis by simp
next
  case False
  then have x: "x \<noteq> 0" and u: "ulp_exp x = expo x - 52" by (simp_all add: ulp_exp_def)
  let ?g = "(2::real) powi (expo x - 52)"
  let ?N = "round_even (x / ?g)"
  have g: "0 < ?g" by simp
  have "fl x - x = (of_int ?N - x / ?g) * ?g" using g by (simp add: fl_alt u field_simps)
  then have "\<bar>fl x - x\<bar> = \<bar>of_int ?N - x / ?g\<bar> * ?g" using g
    by (simp add: abs_mult abs_of_pos)
  also have "\<dots> \<le> 1 / 2 * ?g" using round_even_error[of "x / ?g"] g
    by (intro mult_right_mono) simp_all
  also have "\<dots> = 2 powi expo x / 2 ^ 53"
  proof -
    have "?g = 2 powi expo x * 2 powi (- 52)"
      by (subst power_int_add[symmetric]) simp_all
    then show ?thesis by (simp add: power_int_minus field_simps)
  qed
  also have "\<dots> \<le> \<bar>x\<bar> / 2 ^ 53" using expo_bounds[OF x] by (simp add: divide_right_mono)
  finally show ?thesis .
qed

lemma fl_add_error:
  assumes "fl a = a" and "fl b = b"
  shows "\<bar>fl (a + b) - (a + b)\<bar> \<le> \<bar>a + b\<bar> / 2 ^ 53"
proof -
  from double_grid[OF assms(1)] double_grid[OF assms(2)] obtain n m where
    "a = of_int n * 2 powi (- 1074)" "b = of_int m * 2 powi (- 1074)" by blast
  then have "a + b = of_int (n + m) * 2 powi (- 1074)" by (simp add: algebra_simps)
  then show ?thesis by (rule fl_error_grid)
qed

lemma fl_sub_error:
  assumes "fl a = a" and "fl b = b"
  shows "\<bar>fl (a - b) - (a - b)\<bar> \<le> \<bar>a - b\<bar> / 2 ^ 53"
proof -
  from double_grid[OF assms(1)] double_grid[OF assms(2)] obtain n m where
    "a = of_int n * 2 powi (- 1074)" "b = of_int m * 2 powi (- 1074)" by blast
  then have "a - b = of_int (n - m) * 2 powi (- 1074)" by (simp add: algebra_simps)
  then show ?thesis by (rule fl_error_grid)
qed

text \<open>
  Equations for evaluation: an integer of magnitude up to \<open>2\<^sup>5\<^sup>3\<close> is a double, and the
  threshold is \<open>4835703278458517 / 2\<^sup>8\<^sup>2\<close>.
\<close>

lemma fl_code [code]:
  "fl x = (if x = of_int \<lfloor>x\<rfloor> \<and> \<bar>x\<bar> \<le> 9007199254740992 then x
           else let e = ulp_exp x in of_int (round_even (x / 2 powi e)) * 2 powi e)"
proof (cases "x = of_int \<lfloor>x\<rfloor> \<and> \<bar>x\<bar> \<le> 9007199254740992")
  case True
  then have x: "x = of_int \<lfloor>x\<rfloor>" and "\<bar>of_int \<lfloor>x\<rfloor> :: real\<bar> \<le> 9007199254740992" by simp_all
  then have "real_of_int \<bar>\<lfloor>x\<rfloor>\<bar> \<le> real_of_int (2 ^ 53)" by simp
  then have "\<bar>\<lfloor>x\<rfloor>\<bar> \<le> 2 ^ 53" by (simp only: of_int_le_iff)
  from fl_int[OF this] x True show ?thesis by simp
next
  case False
  show ?thesis by (subst if_not_P[OF False]) (rule fl_def)
qed

lemma CONVERGENCE_THRESHOLD_code [code]:
  "CONVERGENCE_THRESHOLD = 4835703278458517 / 4835703278458516698824704"
  by (simp add: CONVERGENCE_THRESHOLD_def fl_def ulp_exp_def expo_def round_even_def
      compute_bitlen Let_def)

lemma threshold_pos: "0 < CONVERGENCE_THRESHOLD"
  by (simp add: CONVERGENCE_THRESHOLD_code)

subsection \<open>The redistribution engine changes votes only\<close>

lemma index_of_less: "index_of n cs = Some i \<Longrightarrow> i < length cs"
  by (induction cs arbitrary: i) (auto split: if_splits)

lemma index_of_name: "index_of n cs = Some i \<Longrightarrow> name (cs ! i) = n"
  by (induction cs arbitrary: i) (auto split: if_splits)

lemma index_of_found: "n \<in> name ` set cs \<Longrightarrow> \<exists>i. index_of n cs = Some i"
  by (induction cs) auto

lemma reset_votes_update: "reset_votes (cs[i := (cs ! i)\<lparr>votes := x\<rparr>]) = reset_votes cs"
proof (cases "i < length cs")
  case True
  then show ?thesis
    by (simp add: reset_votes_def map_update list_eq_iff_nth_eq nth_list_update)
next
  case False
  then show ?thesis by (simp add: list_update_beyond)
qed

lemma walk_ballot_reset:
  "walk_ballot ps v cs = Inr (cs', r) \<Longrightarrow> reset_votes cs' = reset_votes cs"
proof (induction ps arbitrary: v cs)
  case Nil
  then show ?case by simp
next
  case (Cons p ps)
  show ?case
  proof (cases "v < CONVERGENCE_THRESHOLD")
    case True
    with Cons.prems show ?thesis by simp
  next
    case False
    with Cons.prems obtain i where i: "index_of p cs = Some i"
      by (auto split: option.splits)
    from Cons.prems False i show ?thesis
      by (auto simp: Let_def reset_votes_update dest!: Cons.IH)
  qed
qed

lemma count_ballots_reset:
  "count_ballots bs cs = Inr (cs', ls) \<Longrightarrow> reset_votes cs' = reset_votes cs"
proof (induction bs arbitrary: cs cs' ls)
  case Nil
  then show ?case by simp
next
  case (Cons b bs)
  then show ?case
    by (auto split: sum.splits prod.splits dest!: walk_ballot_reset)
qed

lemma count_ballots_length:
  "count_ballots bs cs = Inr (cs', ls) \<Longrightarrow> length ls = length bs"
  by (induction bs arbitrary: cs cs' ls) (auto split: sum.splits prod.splits)

lemma reset_votes_idem: "reset_votes (reset_votes cs) = reset_votes cs"
  by (simp add: reset_votes_def)

lemma reset_votes_statuses: "reset_votes cs' = reset_votes cs \<Longrightarrow> statuses cs' = statuses cs"
proof -
  assume h: "reset_votes cs' = reset_votes cs"
  have "statuses (reset_votes xs) = statuses xs" for xs
    by (simp add: statuses_def reset_votes_def)
  with h show ?thesis by metis
qed

lemma reset_votes_keep_rates:
  "reset_votes cs' = reset_votes cs \<Longrightarrow> map keep_rate cs' = map keep_rate cs"
proof -
  assume h: "reset_votes cs' = reset_votes cs"
  have "map keep_rate (reset_votes xs) = map keep_rate xs" for xs
    by (simp add: reset_votes_def)
  with h show ?thesis by metis
qed

lemma recalculate_votes_Inr:
  "recalculate_votes s = Inr s' \<Longrightarrow>
     \<exists>cs. s' = s\<lparr>candidates := cs\<rparr> \<and> reset_votes cs = reset_votes (candidates s)"
  by (auto simp: recalculate_votes_def reset_votes_idem split: sum.splits prod.splits
           dest!: count_ballots_reset)

subsection \<open>The convergence loop changes no status\<close>

lemma shrink_statuses:
  "shrink_keep_rates q cs = Inr cs' \<Longrightarrow> statuses cs' = statuses cs \<and> map votes cs' = map votes cs"
  by (induction cs arbitrary: cs') (auto simp: statuses_def split: if_splits sum.splits)

lemma meek_step_Inr:
  "meek_step s = Inr (s', ch) \<Longrightarrow>
     \<exists>cs. s' = s\<lparr>candidates := cs\<rparr> \<and> statuses cs = statuses (candidates s)"
  by (auto simp: meek_step_def Let_def split: sum.splits
           dest!: recalculate_votes_Inr shrink_statuses reset_votes_statuses)

lemma meek_loop_Inr:
  "meek_loop n s = Inr s' \<Longrightarrow>
     \<exists>cs. s' = s\<lparr>candidates := cs\<rparr> \<and> statuses cs = statuses (candidates s)"
proof (induction n arbitrary: s)
  case 0
  then show ?case by (auto intro: exI[of _ "candidates s"])
next
  case (Suc n)
  from Suc.prems obtain s1 ch where st: "meek_step s = Inr (s1, ch)"
    by (auto split: sum.splits)
  from meek_step_Inr[OF st] obtain cs1 where
    s1: "s1 = s\<lparr>candidates := cs1\<rparr>" "statuses cs1 = statuses (candidates s)" by blast
  show ?case
  proof (cases "ch < CONVERGENCE_THRESHOLD")
    case True
    with Suc.prems st s1 show ?thesis by auto
  next
    case False
    with Suc.prems st have "meek_loop n s1 = Inr s'" by simp
    from Suc.IH[OF this] s1 show ?thesis by auto
  qed
qed

lemma reset_keep_rates_statuses: "statuses (reset_keep_rates cs) = statuses cs"
  by (simp add: statuses_def reset_keep_rates_def)

lemma run_meek_iteration_Inr:
  "run_meek_iteration s = Inr s' \<Longrightarrow>
     \<exists>cs. s' = s\<lparr>candidates := cs\<rparr> \<and> statuses cs = statuses (candidates s)"
  by (auto simp: run_meek_iteration_def reset_keep_rates_statuses split: sum.splits
           dest!: meek_loop_Inr recalculate_votes_Inr reset_votes_statuses)

subsection \<open>Loops over lists of references\<close>

lemma for_each_length: "length (for_each f refs cs) = length cs"
  unfolding for_each_def by (induction refs arbitrary: cs) auto

lemma for_each_nth:
  assumes idem: "\<And>c. f (f c) = f c" and j: "j < length cs"
  shows "for_each f refs cs ! j = (if j \<in> set refs then f (cs ! j) else cs ! j)"
  using j unfolding for_each_def
proof (induction refs arbitrary: cs)
  case Nil
  then show ?case by simp
next
  case (Cons i refs)
  show ?case
  proof (cases "i = j")
    case True
    with Cons show ?thesis by (simp add: idem)
  next
    case False
    with Cons show ?thesis by simp
  qed
qed

lemma set_active_candidates:
  "set (active_candidates cs) = {i. i < length cs \<and> active (cs ! i)}"
  by (auto simp: active_candidates_def)

lemma active_candidates_Nil:
  "active_candidates cs = [] \<longleftrightarrow> (\<forall>c \<in> set cs. \<not> active c)"
proof
  assume "active_candidates cs = []"
  then have "\<forall>i < length cs. \<not> active (cs ! i)"
    by (auto simp: active_candidates_def filter_empty_conv)
  then show "\<forall>c \<in> set cs. \<not> active c"
    by (auto simp: in_set_conv_nth)
next
  assume "\<forall>c \<in> set cs. \<not> active c"
  then show "active_candidates cs = []"
    by (simp add: active_candidates_def filter_empty_conv)
qed

lemma active_votes_set:
  "set (map (\<lambda>i. votes (cs ! i)) (active_candidates cs)) = votes ` {c \<in> set cs. active c}"
  by (auto simp: set_active_candidates in_set_conv_nth image_iff)

subsection \<open>Elimination and the last round\<close>

lemma eliminate_loser_candidates:
  "candidates (eliminate_loser s) =
     map (\<lambda>c. if active c \<and>
                  \<bar>fl (votes c - Min (votes ` {c \<in> set (candidates s). active c}))\<bar>
                    < CONVERGENCE_THRESHOLD
               then c\<lparr>is_loser := True\<rparr> else c) (candidates s)"
proof (cases "active_candidates (candidates s) = []")
  case True
  then have "\<forall>c \<in> set (candidates s). \<not> active c" by (simp add: active_candidates_Nil)
  then have "map (\<lambda>c. if active c \<and>
                  \<bar>fl (votes c - Min (votes ` {c \<in> set (candidates s). active c}))\<bar>
                    < CONVERGENCE_THRESHOLD
               then c\<lparr>is_loser := True\<rparr> else c) (candidates s) = candidates s"
    by (simp add: map_idI)
  with True show ?thesis by (simp add: eliminate_loser_def Let_def)
next
  case False
  let ?cs = "candidates s"
  let ?m = "min_list (map (\<lambda>i. votes (?cs ! i)) (active_candidates ?cs))"
  have m: "?m = Min (votes ` {c \<in> set ?cs. active c})"
    using False by (simp add: min_list_Min active_votes_set del: set_map)
  have "candidates (eliminate_loser s) =
          for_each (\<lambda>c. if \<bar>fl (votes c - ?m)\<bar> < CONVERGENCE_THRESHOLD then c\<lparr>is_loser := True\<rparr> else c)
            (active_candidates ?cs) ?cs"
    using False by (simp add: eliminate_loser_def Let_def)
  also have "\<dots> = map (\<lambda>c. if active c \<and> \<bar>fl (votes c - ?m)\<bar> < CONVERGENCE_THRESHOLD
               then c\<lparr>is_loser := True\<rparr> else c) ?cs"
    by (rule nth_equalityI) (auto simp: for_each_length for_each_nth set_active_candidates)
  finally show ?thesis by (simp only: m)
qed

lemma eliminate_loser_frame:
  "\<exists>cs. eliminate_loser s = s\<lparr>candidates := cs\<rparr>"
proof (cases "active_candidates (candidates s) = []")
  case True
  then have "eliminate_loser s = s\<lparr>candidates := candidates s\<rparr>"
    by (simp add: eliminate_loser_def Let_def)
  then show ?thesis ..
next
  case False
  then show ?thesis by (auto simp: eliminate_loser_def Let_def)
qed

lemma decide_idem: "decide q (decide q c) = decide q c"
  by (simp add: decide_def)

lemma final_round_Inr:
  assumes "run_meek_iteration s = Inr s1"
  shows "final_round s =
     Inr (s1\<lparr>candidates :=
            map (\<lambda>(c, c1). if active c then decide (droop_quota s) c1 else c1)
              (zip (candidates s) (candidates s1))\<rparr>)"
proof -
  from run_meek_iteration_Inr[OF assms] obtain cs1 where
    s1: "s1 = s\<lparr>candidates := cs1\<rparr>" and st: "statuses cs1 = statuses (candidates s)" by blast
  from st have len: "length cs1 = length (candidates s)"
    by (metis length_map statuses_def)
  have "for_each (decide (droop_quota s))
          (sort_key (\<lambda>i. - votes (cs1 ! i)) (active_candidates (candidates s))) cs1 =
        map (\<lambda>(c, c1). if active c then decide (droop_quota s) c1 else c1) (zip (candidates s) cs1)"
    by (rule nth_equalityI)
       (auto simp: for_each_length for_each_nth decide_idem set_active_candidates len)
  with assms s1 show ?thesis by (simp add: final_round_def Let_def)
qed

subsection \<open>Loading, rounds and the loop over the rounds\<close>

lemma load_line_frame:
  "candidates (load_line l s) = candidates s \<and> droop_quota (load_line l s) = droop_quota s
   \<and> num_winners (load_line l s) = num_winners s"
  by (simp add: load_line_def Let_def)

lemma fold_load_line_frame:
  "candidates (fold load_line ls s) = candidates s \<and> droop_quota (fold load_line ls s) = droop_quota s
   \<and> num_winners (fold load_line ls s) = num_winners s"
  by (induction ls arbitrary: s) (simp_all add: load_line_frame)

lemma load_data_frame:
  "candidates (load_data file s) = candidates s \<and> droop_quota (load_data file s) = droop_quota s
   \<and> num_winners (load_data file s) = num_winners s"
  by (cases "file") (simp_all add: load_data_def fold_load_line_frame)

lemma run_single_round_Inr:
  "run_single_round s = Inr s' \<Longrightarrow>
     \<exists>cs. s' = s\<lparr>candidates := cs\<rparr>"
proof -
  assume a: "run_single_round s = Inr s'"
  then obtain s1 where s1: "run_meek_iteration s = Inr s1" and s': "s' = eliminate_loser s1"
    by (auto simp: run_single_round_def split: sum.splits)
  from run_meek_iteration_Inr[OF s1] obtain cs1 where c1: "s1 = s\<lparr>candidates := cs1\<rparr>"
    by blast
  from eliminate_loser_frame[of s1] obtain cs2 where "eliminate_loser s1 = s1\<lparr>candidates := cs2\<rparr>"
    by blast
  with c1 s' have "s' = s\<lparr>candidates := cs2\<rparr>" by simp
  then show ?thesis ..
qed

lemma round_head_frame:
  "round_head s t \<Longrightarrow> \<exists>cs. t = s\<lparr>candidates := cs\<rparr>"
proof (induction rule: round_head.induct)
  case start
  show ?case by (rule exI[of _ "candidates s"]) simp
next
  case (next_round t u)
  then show ?case by (auto dest!: run_single_round_Inr)
qed

lemma round_head_step:
  assumes "\<not> int (length (active_candidates (candidates s))) \<le> num_winners s"
    and "run_single_round s = Inr s'" and "round_head s' t"
  shows "round_head s t"
  using assms(3)
proof (induction rule: round_head.induct)
  case start
  from round_head.start assms(1,2) show ?case by (rule round_head.next_round)
next
  case (next_round t u)
  then show ?case by (blast intro: round_head.next_round)
qed

lemma run_main_loop_result:
  assumes "run_main_loop s = Some r"
  shows "\<exists>t. round_head s t \<and>
       (if int (length (active_candidates (candidates t))) \<le> num_winners t
        then r = final_round t
        else \<exists>e. run_single_round t = Inl e \<and> r = Inl e)"
proof (rule run_main_loop.raw_induct[where P = "\<lambda>s r. \<exists>t. round_head s t \<and>
       (if int (length (active_candidates (candidates t))) \<le> num_winners t
        then r = final_round t
        else \<exists>e. run_single_round t = Inl e \<and> r = Inl e)", OF _ assms], goal_cases)
  case (1 loop s r)
  show ?case
  proof (cases "int (length (active_candidates (candidates s))) \<le> num_winners s")
    case True
    with 1(2) have "r = final_round s" by simp
    with True show ?thesis by (auto intro!: exI[of _ s] round_head.start)
  next
    case False
    show ?thesis
    proof (cases "run_single_round s")
      case (Inl e)
      with False 1(2) have "r = Inl e" by simp
      with False Inl show ?thesis by (auto intro!: exI[of _ s] round_head.start)
    next
      case (Inr s')
      with False 1(2) have "loop s' = Some r" by simp
      from 1(1)[OF this] obtain t where t: "round_head s' t"
        "if int (length (active_candidates (candidates t))) \<le> num_winners t
         then r = final_round t else \<exists>e. run_single_round t = Inl e \<and> r = Inl e" by blast
      from round_head_step[OF False Inr t(1)] t(2) show ?thesis by blast
    qed
  qed
qed

lemma final_round_frame:
  "final_round s = Inr r \<Longrightarrow> \<exists>cs. r = s\<lparr>candidates := cs\<rparr>"
  by (auto simp: final_round_def Let_def split: sum.splits dest!: run_meek_iteration_Inr)

lemma run_main_loop_frame:
  assumes "run_main_loop s = Some (Inr r)"
  shows "\<exists>cs. r = s\<lparr>candidates := cs\<rparr>"
proof -
  from run_main_loop_result[OF assms] obtain t where t: "round_head s t"
    and r: "final_round t = Inr r"
    by (auto split: if_splits)
  from round_head_frame[OF t] final_round_frame[OF r] show ?thesis by auto
qed

lemma round_head_quota: "round_head s t \<Longrightarrow> droop_quota t = droop_quota s"
  by (auto dest!: round_head_frame)

subsection \<open>Statuses by position\<close>



lemma statuses_nth:
  assumes "statuses cs' = statuses cs" and "i < length cs"
  shows "name (cs' ! i) = name (cs ! i) \<and> is_winner (cs' ! i) = is_winner (cs ! i)
     \<and> is_loser (cs' ! i) = is_loser (cs ! i) \<and> active (cs' ! i) = active (cs ! i)"
proof -
  from assms(1) have len: "length cs' = length cs" by (metis length_map statuses_def)
  from assms(1) have "statuses cs' ! i = statuses cs ! i" by simp
  with assms(2) len show ?thesis by (simp add: statuses_def active_def)
qed

lemma statuses_length: "statuses cs' = statuses cs \<Longrightarrow> length cs' = length cs"
  by (metis length_map statuses_def)

subsection \<open>The redistribution engine returns\<close>

lemma reset_votes_names: "reset_votes cs' = reset_votes cs \<Longrightarrow> map name cs' = map name cs"
proof -
  assume h: "reset_votes cs' = reset_votes cs"
  have "map name (reset_votes xs) = map name xs" for xs
    by (simp add: reset_votes_def)
  with h show ?thesis by metis
qed

lemma walk_ballot_total:
  "\<forall>p \<in> set ps. p \<in> set (map name cs) \<Longrightarrow> \<exists>cs' r. walk_ballot ps v cs = Inr (cs', r)"
proof (induction ps arbitrary: v cs)
  case Nil
  then show ?case by simp
next
  case (Cons p ps)
  show ?case
  proof (cases "v < CONVERGENCE_THRESHOLD")
    case True
    then show ?thesis by simp
  next
    case False
    from Cons.prems have "p \<in> name ` set cs" by simp
    from index_of_found[OF this] obtain i where i: "index_of p cs = Some i" by blast
    let ?t = "fl (v * (if active (cs ! i) then keep_rate (cs ! i) else 0))"
    let ?cs = "cs[i := (cs ! i)\<lparr>votes := fl (votes (cs ! i) + ?t)\<rparr>]"
    have "reset_votes ?cs = reset_votes cs" by (rule reset_votes_update)
    then have "map name ?cs = map name cs" by (rule reset_votes_names)
    with Cons.prems have "\<forall>p \<in> set ps. p \<in> set (map name ?cs)" by simp
    from Cons.IH[OF this, of "fl (v - ?t)"] False i show ?thesis by (simp add: Let_def)
  qed
qed

lemma count_ballots_total:
  "\<forall>b \<in> set bs. \<forall>p \<in> set (preferences b). p \<in> set (map name cs) \<Longrightarrow>
     \<exists>cs' ls. count_ballots bs cs = Inr (cs', ls)"
proof (induction bs arbitrary: cs)
  case Nil
  then show ?case by simp
next
  case (Cons b bs)
  from Cons.prems have "\<forall>p \<in> set (preferences b). p \<in> set (map name cs)" by simp
  from walk_ballot_total[OF this, of 1] obtain cs1 l where
    w: "walk_ballot (preferences b) 1 cs = Inr (cs1, l)" by blast
  from walk_ballot_reset[OF w] have "map name cs1 = map name cs" by (rule reset_votes_names)
  with Cons.prems have "\<forall>b \<in> set bs. \<forall>p \<in> set (preferences b). p \<in> set (map name cs1)"
    by simp
  from Cons.IH[OF this] obtain cs' ls where "count_ballots bs cs1 = Inr (cs', ls)" by blast
  with w show ?case by simp
qed

subsection \<open>Keep rates along the convergence loop\<close>

lemma walk_ballot_double:
  "\<forall>c \<in> set cs. fl (votes c) = votes c \<Longrightarrow> walk_ballot ps v cs = Inr (cs', r) \<Longrightarrow>
     \<forall>c \<in> set cs'. fl (votes c) = votes c"
proof (induction ps arbitrary: v cs)
  case Nil
  then show ?case by simp
next
  case (Cons p ps)
  show ?case
  proof (cases "v < CONVERGENCE_THRESHOLD")
    case True
    with Cons.prems show ?thesis by simp
  next
    case False
    with Cons.prems(2) obtain i where i: "index_of p cs = Some i"
      by (auto split: option.splits)
    let ?t = "fl (v * (if active (cs ! i) then keep_rate (cs ! i) else 0))"
    let ?c = "(cs ! i)\<lparr>votes := fl (votes (cs ! i) + ?t)\<rparr>"
    from Cons.prems(2) False i
    have w: "walk_ballot ps (fl (v - ?t)) (cs[i := ?c]) = Inr (cs', r)"
      by (simp add: Let_def)
    have "set (cs[i := ?c]) \<subseteq> insert ?c (set cs)" by (rule set_update_subset_insert)
    with Cons.prems(1) have "\<forall>c \<in> set (cs[i := ?c]). fl (votes c) = votes c" by auto
    from Cons.IH[OF this w] show ?thesis .
  qed
qed

lemma count_ballots_double:
  "\<forall>c \<in> set cs. fl (votes c) = votes c \<Longrightarrow> count_ballots bs cs = Inr (cs', ls) \<Longrightarrow>
     \<forall>c \<in> set cs'. fl (votes c) = votes c"
proof (induction bs arbitrary: cs cs' ls)
  case Nil
  then show ?case by simp
next
  case (Cons b bs)
  from Cons.prems(2) obtain cs1 l ls1 where
    w: "walk_ballot (preferences b) 1 cs = Inr (cs1, l)" and
    c: "count_ballots bs cs1 = Inr (cs', ls1)"
    by (auto split: sum.splits prod.splits)
  from Cons.IH[OF walk_ballot_double[OF Cons.prems(1) w] c] show ?case .
qed

lemma recalculate_votes_double:
  assumes "recalculate_votes s = Inr s1"
  shows "\<forall>c \<in> set (candidates s1). fl (votes c) = votes c"
proof -
  from assms obtain cs ls where
    c: "count_ballots (ballots s) (reset_votes (candidates s)) = Inr (cs, ls)" and
    s1: "s1 = s\<lparr>candidates := cs\<rparr>"
    by (auto simp: recalculate_votes_def split: sum.splits prod.splits)
  have "\<forall>c \<in> set (reset_votes (candidates s)). fl (votes c) = votes c"
    by (auto simp: reset_votes_def)
  from count_ballots_double[OF this c] s1 show ?thesis by simp
qed

lemma shrink_factor:
  assumes "0 \<le> q" and "real_of_int q < v" and "fl v = v"
  shows "0 \<le> fl (fl (real_of_int q) / v)" and "fl (fl (real_of_int q) / v) \<le> 1"
proof -
  from assms(1) have q0: "0 \<le> real_of_int q" by simp
  from assms(1,2) have v: "0 < v" by linarith
  from q0 have a: "0 \<le> fl (real_of_int q)" by (rule fl_nonneg)
  from assms(2) have "real_of_int q \<le> v" by simp
  with q0 have b: "fl (real_of_int q) \<le> v" using assms(3) by (rule fl_le)
  from a v have f0: "0 \<le> fl (real_of_int q) / v" by simp
  from b v have f1: "fl (real_of_int q) / v \<le> 1" by simp
  from f0 show "0 \<le> fl (fl (real_of_int q) / v)" by (rule fl_nonneg)
  from f0 f1 show "fl (fl (real_of_int q) / v) \<le> 1" by (rule fl_le) simp
qed

lemma shrink_mono:
  assumes "0 \<le> q"
  shows "keep_ok cs \<Longrightarrow> \<forall>c \<in> set cs. fl (votes c) = votes c \<Longrightarrow>
     shrink_keep_rates q cs = Inr cs' \<Longrightarrow>
     list_all2 (\<lambda>c c'. name c' = name c \<and> keep_rate c' \<le> keep_rate c) cs cs' \<and> keep_ok cs'"
proof (induction cs arbitrary: cs')
  case Nil
  then show ?case by (simp add: keep_ok_def)
next
  case (Cons c cs)
  from Cons.prems(1) have ok: "keep_ok cs"
    and okc: "active c \<longrightarrow> 0 \<le> keep_rate c \<and> fl (keep_rate c) = keep_rate c"
    by (simp_all add: keep_ok_def)
  from Cons.prems(2) have dv: "\<forall>c \<in> set cs. fl (votes c) = votes c" and dc: "fl (votes c) = votes c"
    by simp_all
  from Cons.prems(3) obtain cs1 where r: "shrink_keep_rates q cs = Inr cs1"
    by (auto split: if_splits sum.splits)
  from Cons.IH[OF ok dv r] have ih:
    "list_all2 (\<lambda>c c'. name c' = name c \<and> keep_rate c' \<le> keep_rate c) cs cs1" "keep_ok cs1"
    by simp_all
  show ?case
  proof (cases "active c \<and> votes c > real_of_int q")
    case True
    let ?f = "fl (fl (real_of_int q) / votes c)"
    from True have qv: "real_of_int q < votes c" by simp
    with assms have v: "votes c \<noteq> 0" by auto
    from shrink_factor[OF assms qv dc] have f: "0 \<le> ?f" "?f \<le> 1" .
    from True okc have k: "0 \<le> keep_rate c" "fl (keep_rate c) = keep_rate c" by simp_all
    from f(2) k(1) have "keep_rate c * ?f \<le> keep_rate c" by (rule mult_left_le)
    moreover from k(1) f(1) have ge: "0 \<le> keep_rate c * ?f" by (rule mult_nonneg_nonneg)
    ultimately have le: "fl (keep_rate c * ?f) \<le> keep_rate c" using k(2) by (intro fl_le)
    from ge have ge': "0 \<le> fl (keep_rate c * ?f)" by (rule fl_nonneg)
    from True v Cons.prems(3) r
    have "cs' = c\<lparr>keep_rate := fl (keep_rate c * ?f)\<rparr> # cs1" by simp
    with ih le ge' show ?thesis by (simp add: keep_ok_def active_def)
  next
    case False
    with Cons.prems(3) r have "cs' = c # cs1" by auto
    with ih okc show ?thesis by (simp add: keep_ok_def)
  qed
qed

lemma reset_votes_fields:
  "reset_votes cs' = reset_votes cs \<Longrightarrow>
     list_all2 (\<lambda>c c'. name c' = name c \<and> keep_rate c' = keep_rate c \<and> active c' = active c) cs cs'"
proof (induction cs arbitrary: cs')
  case Nil
  then show ?case by (simp add: reset_votes_def)
next
  case (Cons c cs)
  then obtain c' cs1 where cs': "cs' = c' # cs1" by (cases cs') (simp_all add: reset_votes_def)
  with Cons.prems have e: "c'\<lparr>votes := 0\<rparr> = c\<lparr>votes := 0\<rparr>" and t: "reset_votes cs1 = reset_votes cs"
    by (simp_all add: reset_votes_def)
  from e have "name (c'\<lparr>votes := 0\<rparr>) = name (c\<lparr>votes := 0\<rparr>)"
    "keep_rate (c'\<lparr>votes := 0\<rparr>) = keep_rate (c\<lparr>votes := 0\<rparr>)"
    "active (c'\<lparr>votes := 0\<rparr>) = active (c\<lparr>votes := 0\<rparr>)" by simp_all
  then have "name c' = name c" "keep_rate c' = keep_rate c" "active c' = active c"
    by (simp_all add: active_def)
  with Cons.IH[OF t] cs' show ?case by simp
qed

lemma meek_step_mono:
  assumes "0 \<le> droop_quota s" and "keep_ok (candidates s)" and "meek_step s = Inr (s', ch)"
  shows "keep_rates_shrink s s' \<and> keep_ok (candidates s') \<and> droop_quota s' = droop_quota s"
proof -
  from assms(3) obtain s1 cs where
    r: "recalculate_votes s = Inr s1" and
    k: "shrink_keep_rates (droop_quota s1) (candidates s1) = Inr cs" and
    s': "s' = s1\<lparr>candidates := cs\<rparr>"
    by (auto simp: meek_step_def Let_def split: sum.splits)
  from recalculate_votes_Inr[OF r] obtain cs1 where
    s1: "s1 = s\<lparr>candidates := cs1\<rparr>" and rv: "reset_votes cs1 = reset_votes (candidates s)"
    by blast
  from reset_votes_fields[OF rv] have f:
    "list_all2 (\<lambda>c c'. name c' = name c \<and> keep_rate c' = keep_rate c \<and> active c' = active c)
       (candidates s) cs1" .
  have ok1: "keep_ok cs1"
    unfolding keep_ok_def
  proof (intro ballI impI)
    fix c' assume c': "c' \<in> set cs1" and a: "active c'"
    from c' obtain i where i: "i < length cs1" "c' = cs1 ! i"
      by (auto simp: in_set_conv_nth)
    from f i have e: "length (candidates s) = length cs1"
      "keep_rate c' = keep_rate (candidates s ! i)" "active c' = active (candidates s ! i)"
      by (simp_all add: list_all2_conv_all_nth)
    from e(1) i(1) have "candidates s ! i \<in> set (candidates s)" by simp
    with assms(2) a e show "0 \<le> keep_rate c' \<and> fl (keep_rate c') = keep_rate c'"
      by (simp add: keep_ok_def)
  qed
  from s1 have q: "droop_quota s1 = droop_quota s" and c1: "candidates s1 = cs1" by simp_all
  from recalculate_votes_double[OF r] c1 have dv: "\<forall>c \<in> set cs1. fl (votes c) = votes c"
    by simp
  from shrink_mono[OF _ ok1 dv, of "droop_quota s" cs] assms(1) k q c1
  have m: "list_all2 (\<lambda>c c'. name c' = name c \<and> keep_rate c' \<le> keep_rate c) cs1 cs" "keep_ok cs"
    by simp_all
  have "list_all2 (\<lambda>c c'. name c' = name c \<and> keep_rate c' \<le> keep_rate c) (candidates s) cs"
    using f m(1) by (auto simp: list_all2_conv_all_nth)
  with m(2) s' s1 show ?thesis by (simp add: keep_rates_shrink_def)
qed

lemma meek_trace_Cons: "\<exists>xs. meek_trace n s = s # xs"
  by (cases n) simp_all

lemma meek_trace_successively:
  "0 \<le> droop_quota s \<Longrightarrow> keep_ok (candidates s) \<Longrightarrow>
     successively keep_rates_shrink (meek_trace n s)"
proof (induction n arbitrary: s)
  case 0
  then show ?case by simp
next
  case (Suc n)
  show ?case
  proof (cases "meek_step s")
    case (Inl e)
    then show ?thesis by simp
  next
    case (Inr p)
    obtain s' ch where p: "p = (s', ch)" by (cases p)
    with Inr have st: "meek_step s = Inr (s', ch)" by simp
    from meek_step_mono[OF Suc.prems st] have m: "keep_rates_shrink s s'"
      "keep_ok (candidates s')" "0 \<le> droop_quota s'" using Suc.prems(1) by simp_all
    show ?thesis
    proof (cases "ch < CONVERGENCE_THRESHOLD")
      case True
      with st m show ?thesis by simp
    next
      case False
      obtain xs where xs: "meek_trace n s' = s' # xs" using meek_trace_Cons by blast
      from Suc.IH[OF m(3) m(2)] xs have "successively keep_rates_shrink (s' # xs)" by simp
      with False st m(1) xs show ?thesis by simp
    qed
  qed
qed

lemma meek_trace_last: "meek_loop n s = Inr s' \<Longrightarrow> last (meek_trace n s) = s'"
proof (induction n arbitrary: s)
  case 0
  then show ?case by simp
next
  case (Suc n)
  from Suc.prems obtain s1 ch where st: "meek_step s = Inr (s1, ch)"
    by (auto split: sum.splits)
  show ?case
  proof (cases "ch < CONVERGENCE_THRESHOLD")
    case True
    with Suc.prems st show ?thesis by simp
  next
    case False
    with Suc.prems st have l: "meek_loop n s1 = Inr s'" by simp
    obtain xs where xs: "meek_trace n s1 = s1 # xs" using meek_trace_Cons by blast
    from Suc.IH[OF l] xs False st show ?thesis by simp
  qed
qed

lemma keep_ok_reset: "keep_ok (reset_keep_rates cs)"
  by (auto simp: keep_ok_def reset_keep_rates_def active_def)

subsection \<open>Statuses along a run\<close>

lemma status_kept_refl: "status_kept cs cs"
  by (simp add: status_kept_def list_all2_same active_def)

lemma status_kept_trans:
  assumes "status_kept cs cs'" and "status_kept cs' cs''"
  shows "status_kept cs cs''"
  unfolding status_kept_def
proof (rule list_all2_trans[OF _ assms[unfolded status_kept_def]])
  fix a b c :: Candidate
  assume "name b = name a \<and>
       (if active a then \<not> (is_winner b \<and> is_loser b)
        else is_winner b = is_winner a \<and> is_loser b = is_loser a)"
    and "name c = name b \<and>
       (if active b then \<not> (is_winner c \<and> is_loser c)
        else is_winner c = is_winner b \<and> is_loser c = is_loser b)"
  then show "name c = name a \<and>
       (if active a then \<not> (is_winner c \<and> is_loser c)
        else is_winner c = is_winner a \<and> is_loser c = is_loser a)"
    by (auto simp: active_def split: if_splits)
qed

lemma statuses_status_kept:
  assumes "statuses cs' = statuses cs"
  shows "status_kept cs cs'"
  unfolding status_kept_def list_all2_conv_all_nth
proof (intro conjI allI impI)
  show "length cs = length cs'" using statuses_length[OF assms] by simp
  fix i assume "i < length cs"
  from statuses_nth[OF assms this]
  show "name (cs' ! i) = name (cs ! i)"
    "if active (cs ! i) then \<not> (is_winner (cs' ! i) \<and> is_loser (cs' ! i))
     else is_winner (cs' ! i) = is_winner (cs ! i) \<and> is_loser (cs' ! i) = is_loser (cs ! i)"
    by (auto simp: active_def)
qed

lemma eliminate_loser_status_kept:
  "status_kept (candidates s) (candidates (eliminate_loser s))"
  unfolding eliminate_loser_candidates status_kept_def
  by (simp add: list_all2_map2 list_all2_same active_def)

lemma final_round_status_kept:
  assumes "final_round s = Inr r"
  shows "status_kept (candidates s) (candidates r)"
proof -
  from assms obtain s1 where m: "run_meek_iteration s = Inr s1"
    by (auto simp: final_round_def Let_def split: sum.splits)
  from run_meek_iteration_Inr[OF m]
  have st: "statuses (candidates s1) = statuses (candidates s)" by auto
  then have len: "length (candidates s1) = length (candidates s)" by (rule statuses_length)
  from final_round_Inr[OF m] assms
  have r: "candidates r = map (\<lambda>(c, c1). if active c then decide (droop_quota s) c1 else c1)
              (zip (candidates s) (candidates s1))" by auto
  show ?thesis
    unfolding status_kept_def list_all2_conv_all_nth r
  proof (intro conjI allI impI)
    show "length (candidates s) =
      length (map (\<lambda>(c, c1). if active c then decide (droop_quota s) c1 else c1)
              (zip (candidates s) (candidates s1)))" using len by simp
    fix i assume i: "i < length (candidates s)"
    from statuses_nth[OF st i] i len
    show "name (map (\<lambda>(c, c1). if active c then decide (droop_quota s) c1 else c1)
              (zip (candidates s) (candidates s1)) ! i) = name (candidates s ! i)"
      by (simp add: decide_def)
    from statuses_nth[OF st i] i len
    show "if active (candidates s ! i)
       then \<not> (is_winner (map (\<lambda>(c, c1). if active c then decide (droop_quota s) c1 else c1)
              (zip (candidates s) (candidates s1)) ! i) \<and>
             is_loser (map (\<lambda>(c, c1). if active c then decide (droop_quota s) c1 else c1)
              (zip (candidates s) (candidates s1)) ! i))
       else is_winner (map (\<lambda>(c, c1). if active c then decide (droop_quota s) c1 else c1)
              (zip (candidates s) (candidates s1)) ! i) = is_winner (candidates s ! i) \<and>
            is_loser (map (\<lambda>(c, c1). if active c then decide (droop_quota s) c1 else c1)
              (zip (candidates s) (candidates s1)) ! i) = is_loser (candidates s ! i)"
      by (simp add: decide_def active_def)
  qed
qed

lemma run_point_status_kept:
  "run_point s t \<Longrightarrow> status_kept (candidates s) (candidates t)"
proof (induction rule: run_point.induct)
  case here
  show ?case by (rule status_kept_refl)
next
  case (recalculated t u)
  from recalculate_votes_Inr[OF recalculated.hyps(2)]
  have "statuses (candidates u) = statuses (candidates t)"
    by (auto dest: reset_votes_statuses)
  from status_kept_trans[OF recalculated.IH statuses_status_kept[OF this]] show ?case .
next
  case (stepped t u changed)
  from meek_step_Inr[OF stepped.hyps(2)]
  have "statuses (candidates u) = statuses (candidates t)" by auto
  from status_kept_trans[OF stepped.IH statuses_status_kept[OF this]] show ?case .
next
  case (iterated t u)
  from run_meek_iteration_Inr[OF iterated.hyps(2)]
  have "statuses (candidates u) = statuses (candidates t)" by auto
  from status_kept_trans[OF iterated.IH statuses_status_kept[OF this]] show ?case .
next
  case (eliminated t)
  from status_kept_trans[OF eliminated.IH eliminate_loser_status_kept] show ?case .
next
  case (decided t u)
  from status_kept_trans[OF decided.IH final_round_status_kept[OF decided.hyps(2)]]
  show ?case .
qed

lemma round_head_run_point: "round_head s t \<Longrightarrow> run_point s t"
proof (induction rule: round_head.induct)
  case start
  show ?case by (rule run_point.here)
next
  case (next_round t u)
  from next_round.hyps(3) obtain t1 where
    m: "run_meek_iteration t = Inr t1" and u: "u = eliminate_loser t1"
    by (auto simp: run_single_round_def split: sum.splits)
  from run_point.eliminated[OF run_point.iterated[OF next_round.IH m]] u show ?case by simp
qed

lemma run_main_loop_run_point:
  assumes "run_main_loop s = Some (Inr r)"
  shows "run_point s r"
proof -
  from run_main_loop_result[OF assms] obtain t where t: "round_head s t"
    and r: "final_round t = Inr r"
    by (auto split: if_splits)
  from run_point.decided[OF round_head_run_point[OF t] r] show ?thesis .
qed

lemma statuses_winners: "statuses cs' = statuses cs \<Longrightarrow> map is_winner cs' = map is_winner cs"
proof -
  assume "statuses cs' = statuses cs"
  then have "map (fst \<circ> snd) (statuses cs') = map (fst \<circ> snd) (statuses cs)" by simp
  then show ?thesis by (simp add: statuses_def comp_def)
qed

lemma eliminate_loser_winners:
  "map is_winner (candidates (eliminate_loser s)) = map is_winner (candidates s)"
  unfolding eliminate_loser_candidates by (rule nth_equalityI) simp_all

lemma round_head_next_winners:
  assumes "run_meek_iteration t = Inr u"
  shows "map is_winner (candidates u) = map is_winner (candidates t)
     \<and> map is_winner (candidates (eliminate_loser u)) = map is_winner (candidates t)"
proof -
  from run_meek_iteration_Inr[OF assms]
  have "statuses (candidates u) = statuses (candidates t)" by auto
  then have "map is_winner (candidates u) = map is_winner (candidates t)"
    by (rule statuses_winners)
  with eliminate_loser_winners[of u] show ?thesis by simp
qed

lemma round_head_winners:
  "round_head s t \<Longrightarrow> map is_winner (candidates t) = map is_winner (candidates s)"
proof (induction rule: round_head.induct)
  case start
  show ?case by simp
next
  case (next_round t u)
  from next_round.hyps(3) obtain t1 where
    m: "run_meek_iteration t = Inr t1" and u: "u = eliminate_loser t1"
    by (auto simp: run_single_round_def split: sum.splits)
  from round_head_next_winners[OF m] u next_round.IH show ?case by simp
qed

subsection \<open>Termination of the loop over the rounds\<close>

lemma length_active_candidates: "length (active_candidates cs) = length (filter active cs)"
proof -
  have "filter active (map (\<lambda>i. cs ! i) [0..<length cs]) =
        map (\<lambda>i. cs ! i) (filter (\<lambda>i. active (cs ! i)) [0..<length cs])"
    by (simp add: filter_map comp_def)
  then have "length (filter active (map (\<lambda>i. cs ! i) [0..<length cs])) =
        length (active_candidates cs)"
    by (simp add: active_candidates_def)
  then show ?thesis by (simp add: map_nth)
qed

lemma filter_strict_less:
  assumes "\<And>c. Q c \<Longrightarrow> P c" and "x \<in> set cs" and "P x" and "\<not> Q x"
  shows "length (filter Q cs) < length (filter P cs)"
proof -
  have e: "filter Q cs = filter Q (filter P cs)"
    using assms(1) by (auto simp: filter_filter intro: filter_cong)
  from assms(2,3) have "x \<in> set (filter P cs)" by simp
  from length_filter_less[of x "filter P cs" Q, OF this assms(4)] show ?thesis by (subst e)
qed

lemma eliminate_loser_decreases:
  assumes "active_candidates (candidates s) \<noteq> []"
  shows "length (active_candidates (candidates (eliminate_loser s))) <
         length (active_candidates (candidates s))"
proof -
  let ?cs = "candidates s"
  let ?A = "{c \<in> set ?cs. active c}"
  let ?m = "Min (votes ` ?A)"
  let ?f = "\<lambda>c. if active c \<and> \<bar>fl (votes c - ?m)\<bar> < CONVERGENCE_THRESHOLD
                 then c\<lparr>is_loser := True\<rparr> else c"
  from assms have ne: "?A \<noteq> {}" by (auto simp: active_candidates_Nil)
  have "finite (votes ` ?A)" by simp
  with ne have "?m \<in> votes ` ?A" by (intro Min_in) simp_all
  then obtain x where x: "x \<in> set ?cs" "active x" "votes x = ?m" by auto
  have af: "active (?f c) = (active c \<and> \<not> \<bar>fl (votes c - ?m)\<bar> < CONVERGENCE_THRESHOLD)" for c
    by (simp add: active_def)
  have "length (filter active (map ?f ?cs)) =
        length (filter (\<lambda>c. active c \<and> \<not> \<bar>fl (votes c - ?m)\<bar> < CONVERGENCE_THRESHOLD) ?cs)"
    by (simp add: filter_map comp_def af)
  also have "\<dots> < length (filter active ?cs)"
    by (rule filter_strict_less[where x = x]) (use x threshold_pos in auto)
  finally show ?thesis
    by (simp add: length_active_candidates eliminate_loser_candidates)
qed

lemma statuses_active_candidates:
  assumes "statuses cs' = statuses cs"
  shows "active_candidates cs' = active_candidates cs"
proof -
  have len: "length cs' = length cs" using assms by (rule statuses_length)
  have "filter (\<lambda>i. active (cs' ! i)) [0..<length cs] =
        filter (\<lambda>i. active (cs ! i)) [0..<length cs]"
    by (rule filter_cong) (use statuses_nth[OF assms] in auto)
  with len show ?thesis by (simp add: active_candidates_def)
qed

lemma run_single_round_decreases:
  assumes "active_candidates (candidates s) \<noteq> []" and "run_single_round s = Inr s'"
  shows "length (active_candidates (candidates s')) < length (active_candidates (candidates s))"
proof -
  from assms(2) obtain s1 where m: "run_meek_iteration s = Inr s1" and s': "s' = eliminate_loser s1"
    by (auto simp: run_single_round_def split: sum.splits)
  from run_meek_iteration_Inr[OF m]
  have "statuses (candidates s1) = statuses (candidates s)" by auto
  then have a: "active_candidates (candidates s1) = active_candidates (candidates s)"
    by (rule statuses_active_candidates)
  with assms(1) have "active_candidates (candidates s1) \<noteq> []" by simp
  from eliminate_loser_decreases[OF this] a s' show ?thesis by simp
qed

lemma run_main_loop_returns:
  "0 \<le> num_winners s \<Longrightarrow> \<exists>r. run_main_loop s = Some r"
proof (induction "length (active_candidates (candidates s))" arbitrary: s rule: less_induct)
  case less
  show ?case
  proof (cases "int (length (active_candidates (candidates s))) \<le> num_winners s")
    case True
    then show ?thesis by (subst run_main_loop.simps) simp
  next
    case False
    with less.prems have ne: "active_candidates (candidates s) \<noteq> []" by auto
    show ?thesis
    proof (cases "run_single_round s")
      case (Inl e)
      with False show ?thesis by (subst run_main_loop.simps) simp
    next
      case (Inr s')
      from run_single_round_Inr[OF Inr] less.prems have nw: "0 \<le> num_winners s'" by auto
      from less.hyps[OF run_single_round_decreases[OF ne Inr] nw]
      obtain r where "run_main_loop s' = Some r" by blast
      with False Inr show ?thesis by (subst run_main_loop.simps) simp
    qed
  qed
qed

lemma statuses_names: "statuses cs' = statuses cs \<Longrightarrow> map name cs' = map name cs"
proof -
  assume "statuses cs' = statuses cs"
  then have "map fst (statuses cs') = map fst (statuses cs)" by simp
  then show ?thesis by (simp add: statuses_def comp_def)
qed

lemma valid_ballots_names:
  "valid_ballots s \<Longrightarrow> map name cs = map name (candidates s) \<Longrightarrow>
     valid_ballots (s\<lparr>candidates := cs\<rparr>)"
  by (simp add: valid_ballots_def)

lemma recalculate_votes_total:
  assumes "valid_ballots s"
  shows "\<exists>s'. recalculate_votes s = Inr s'"
proof -
  have "map name (reset_votes (candidates s)) = map name (candidates s)"
    by (simp add: reset_votes_def)
  with assms have "\<forall>b \<in> set (ballots s). \<forall>p \<in> set (preferences b).
      p \<in> set (map name (reset_votes (candidates s)))" by (simp add: valid_ballots_def)
  from count_ballots_total[OF this] show ?thesis
    by (auto simp: recalculate_votes_def)
qed

lemma shrink_keep_rates_total:
  "0 \<le> q \<Longrightarrow> \<exists>cs'. shrink_keep_rates q cs = Inr cs'"
  by (induction cs) auto

lemma meek_step_total:
  assumes "valid_ballots s" and "0 \<le> droop_quota s"
  shows "\<exists>s' ch. meek_step s = Inr (s', ch)"
proof -
  from recalculate_votes_total[OF assms(1)] obtain s1 where r: "recalculate_votes s = Inr s1"
    by blast
  from recalculate_votes_Inr[OF r] assms(2) have "0 \<le> droop_quota s1" by auto
  from shrink_keep_rates_total[OF this, of "candidates s1"] obtain cs where
    "shrink_keep_rates (droop_quota s1) (candidates s1) = Inr cs" by blast
  with r show ?thesis by (simp add: meek_step_def Let_def)
qed

lemma statuses_valid:
  assumes "valid_ballots s" and "s' = s\<lparr>candidates := cs\<rparr>"
    and "statuses cs = statuses (candidates s)"
  shows "valid_ballots s' \<and> droop_quota s' = droop_quota s \<and> num_winners s' = num_winners s"
  using assms valid_ballots_names[OF assms(1) statuses_names[OF assms(3)]] by simp

lemma meek_loop_total:
  "valid_ballots s \<Longrightarrow> 0 \<le> droop_quota s \<Longrightarrow> \<exists>s'. meek_loop n s = Inr s'"
proof (induction n arbitrary: s)
  case 0
  then show ?case by simp
next
  case (Suc n)
  from meek_step_total[OF Suc.prems] obtain s1 ch where st: "meek_step s = Inr (s1, ch)"
    by blast
  from meek_step_Inr[OF st] obtain cs where
    "s1 = s\<lparr>candidates := cs\<rparr>" "statuses cs = statuses (candidates s)" by blast
  from statuses_valid[OF Suc.prems(1) this] Suc.prems(2)
  have "valid_ballots s1" "0 \<le> droop_quota s1" by simp_all
  from Suc.IH[OF this] st show ?case by auto
qed

lemma run_meek_iteration_total:
  assumes "valid_ballots s" and "0 \<le> droop_quota s"
  shows "\<exists>s'. run_meek_iteration s = Inr s'"
proof -
  let ?s0 = "s\<lparr>candidates := reset_keep_rates (candidates s)\<rparr>"
  from statuses_valid[OF assms(1) refl reset_keep_rates_statuses] assms(2)
  have v0: "valid_ballots ?s0" "0 \<le> droop_quota ?s0" by simp_all
  from meek_loop_total[OF v0] obtain s1 where l: "meek_loop MAX_ITERATIONS ?s0 = Inr s1" by blast
  from meek_loop_Inr[OF l] obtain cs where
    "s1 = ?s0\<lparr>candidates := cs\<rparr>" "statuses cs = statuses (candidates ?s0)" by blast
  from statuses_valid[OF v0(1) this] have "valid_ballots s1" by simp
  from recalculate_votes_total[OF this] l show ?thesis
    by (auto simp: run_meek_iteration_def)
qed

lemma eliminate_loser_names:
  "map name (candidates (eliminate_loser s)) = map name (candidates s)"
  unfolding eliminate_loser_candidates by (rule nth_equalityI) simp_all

lemma run_single_round_total:
  assumes "valid_ballots s" and "0 \<le> droop_quota s"
  shows "\<exists>s'. run_single_round s = Inr s' \<and> valid_ballots s' \<and> droop_quota s' = droop_quota s
           \<and> num_winners s' = num_winners s"
proof -
  from run_meek_iteration_total[OF assms] obtain s1 where m: "run_meek_iteration s = Inr s1"
    by blast
  from run_meek_iteration_Inr[OF m] obtain cs where
    c: "s1 = s\<lparr>candidates := cs\<rparr>" "statuses cs = statuses (candidates s)" by blast
  from statuses_valid[OF assms(1) c] have v1: "valid_ballots s1"
    "droop_quota s1 = droop_quota s" "num_winners s1 = num_winners s" by simp_all
  from eliminate_loser_frame[of s1] obtain cs2 where
    e: "eliminate_loser s1 = s1\<lparr>candidates := cs2\<rparr>" by blast
  then have "candidates (eliminate_loser s1) = cs2" by simp
  with eliminate_loser_names[of s1] have "map name cs2 = map name (candidates s1)" by simp
  from valid_ballots_names[OF v1(1) this] e v1 m show ?thesis
    by (simp add: run_single_round_def)
qed

lemma final_round_total:
  assumes "valid_ballots s" and "0 \<le> droop_quota s"
  shows "\<exists>r. final_round s = Inr r"
  using run_meek_iteration_total[OF assms] by (auto simp: final_round_def Let_def)

lemma run_main_loop_normal:
  "valid_ballots s \<Longrightarrow> 0 \<le> droop_quota s \<Longrightarrow> 0 \<le> num_winners s \<Longrightarrow>
     \<exists>r. run_main_loop s = Some (Inr r)"
proof (induction "length (active_candidates (candidates s))" arbitrary: s rule: less_induct)
  case less
  show ?case
  proof (cases "int (length (active_candidates (candidates s))) \<le> num_winners s")
    case True
    from final_round_total[OF less.prems(1,2)] obtain r where "final_round s = Inr r" by blast
    with True show ?thesis by (subst run_main_loop.simps) simp
  next
    case False
    with less.prems(3) have ne: "active_candidates (candidates s) \<noteq> []" by auto
    from run_single_round_total[OF less.prems(1,2)] obtain s' where
      r: "run_single_round s = Inr s'" and v: "valid_ballots s'"
      "droop_quota s' = droop_quota s" "num_winners s' = num_winners s" by blast
    from v less.prems have p: "0 \<le> droop_quota s'" "0 \<le> num_winners s'" by simp_all
    from less.hyps[OF run_single_round_decreases[OF ne r] v(1) p]
    obtain res where "run_main_loop s' = Some (Inr res)" by blast
    with False r show ?thesis by (subst run_main_loop.simps) simp
  qed
qed

lemma load_line_valid: "valid_ballots s \<Longrightarrow> valid_ballots (load_line l s)"
  by (auto simp: load_line_def Let_def valid_ballots_def list_all_iff)

lemma fold_load_line_valid: "valid_ballots s \<Longrightarrow> valid_ballots (fold load_line ls s)"
  by (induction ls arbitrary: s) (simp_all add: load_line_valid)

lemma load_data_valid:
  assumes "valid_ballots s"
  shows "valid_ballots (load_data file s)"
proof (cases "file")
  case None
  with assms show ?thesis by (simp add: load_data_def valid_ballots_def)
next
  case (Some ls)
  with fold_load_line_valid[OF assms, of ls] show ?thesis by (simp add: load_data_def)
qed

lemma calculate_droop_quota_normal:
  assumes "0 \<le> num_winners s"
  shows "\<exists>q. calculate_droop_quota s = Inr (s\<lparr>droop_quota := q\<rparr>) \<and> 0 \<le> q"
proof -
  from assms have "0 \<le> real (length (ballots s)) / real_of_int (num_winners s + 1)" by simp
  then have "0 \<le> \<lfloor>real (length (ballots s)) / real_of_int (num_winners s + 1)\<rfloor> + 1" by simp
  with assms show ?thesis by (auto simp: calculate_droop_quota_def)
qed

subsection \<open>Conservation of ballot value up to rounding\<close>

lemma sum_votes_update:
  "i < length cs \<Longrightarrow>
     sum_list (map votes (cs[i := (cs ! i)\<lparr>votes := x\<rparr>])) =
     sum_list (map votes cs) - votes (cs ! i) + x"
proof (induction cs arbitrary: i)
  case Nil
  then show ?case by simp
next
  case (Cons c cs)
  then show ?case by (cases i) simp_all
qed

lemma fl_nat:
  assumes "n \<le> 2 ^ 53"
  shows "fl (real n) = real n"
proof -
  from assms have "int n \<le> int (2 ^ 53)" by (simp only: of_nat_le_iff)
  then have "\<bar>int n\<bar> \<le> 2 ^ 53" by simp
  from fl_int[OF this] show ?thesis by simp
qed

text \<open>
  One transfer: the rounding errors of the addition to the candidate and of the
  subtraction from the ballot. The rounding of the product does not count, since the same
  rounded value is added and subtracted.
\<close>

lemma transfer_step:
  assumes "0 \<le> k" and "k \<le> 1" and "0 \<le> v" and "v \<le> 1" and "fl v = v"
    and "0 \<le> a" and "a \<le> real m" and "fl a = a" and "m + 1 \<le> 2 ^ 53"
  defines "t \<equiv> fl (v * k)"
  shows "0 \<le> fl (v - t)" and "fl (v - t) \<le> 1"
    and "0 \<le> fl (a + t)" and "fl (a + t) \<le> real (m + 1)"
    and "\<bar>(fl (a + t) - a) + fl (v - t) - v\<bar> \<le> real (m + 2) / 2 ^ 53"
proof -
  from assms(1,3) have vk0: "0 \<le> v * k" by simp
  from assms(2,3) have vk1: "v * k \<le> v" by (rule mult_left_le)
  have t0: "0 \<le> t" unfolding t_def using vk0 by (rule fl_nonneg)
  have t1: "t \<le> v" unfolding t_def using vk0 vk1 assms(5) by (rule fl_le)
  have tt: "fl t = t" unfolding t_def by simp
  from t1 have d0: "0 \<le> v - t" by simp
  from t0 have d1: "v - t \<le> v" by simp
  show v0: "0 \<le> fl (v - t)" using d0 by (rule fl_nonneg)
  have "fl (v - t) \<le> v" using d0 d1 assms(5) by (rule fl_le)
  with assms(4) show "fl (v - t) \<le> 1" by simp
  from assms(6) t0 have s0: "0 \<le> a + t" by simp
  from assms(7) t1 assms(4) have s1: "a + t \<le> real (m + 1)" by simp
  show "0 \<le> fl (a + t)" using s0 by (rule fl_nonneg)
  show "fl (a + t) \<le> real (m + 1)" using s0 s1 fl_nat[OF assms(9)] by (rule fl_le)
  from fl_add_error[OF assms(8) tt] s0 s1
  have e1: "\<bar>fl (a + t) - (a + t)\<bar> \<le> real (m + 1) / 2 ^ 53"
    by (simp add: divide_right_mono order_trans[OF _ divide_right_mono[OF s1]])
  from fl_sub_error[OF assms(5) tt] d0 d1 assms(4)
  have e2: "\<bar>fl (v - t) - (v - t)\<bar> \<le> 1 / 2 ^ 53"
    by (simp add: order_trans[OF _ divide_right_mono[of "v - t" 1]])
  have "(fl (a + t) - a) + fl (v - t) - v = (fl (a + t) - (a + t)) + (fl (v - t) - (v - t))"
    by simp
  also have "\<bar>\<dots>\<bar> \<le> real (m + 1) / 2 ^ 53 + 1 / 2 ^ 53" using e1 e2 by linarith
  also have "\<dots> = real (m + 2) / 2 ^ 53" by (simp add: add_divide_distrib[symmetric])
  finally show "\<bar>(fl (a + t) - a) + fl (v - t) - v\<bar> \<le> real (m + 2) / 2 ^ 53" .
qed

lemma walk_ballot_error:
  assumes "\<forall>c \<in> set cs. 0 \<le> votes c \<and> votes c \<le> real m \<and> fl (votes c) = votes c"
    and "\<forall>c \<in> set cs. active c \<longrightarrow> 0 \<le> keep_rate c \<and> keep_rate c \<le> 1"
    and "0 \<le> v" and "v \<le> 1" and "fl v = v"
    and "m + length ps \<le> 2 ^ 53"
    and "walk_ballot ps v cs = Inr (cs', r)"
  shows "(\<forall>c \<in> set cs'. 0 \<le> votes c \<and> votes c \<le> real (m + length ps) \<and> fl (votes c) = votes c)
     \<and> 0 \<le> r \<and> r \<le> 1
     \<and> \<bar>sum_list (map votes cs') + r - (sum_list (map votes cs) + v)\<bar>
         \<le> real (length ps * (m + length ps + 1)) / 2 ^ 53"
  using assms
proof (induction ps arbitrary: m v cs)
  case Nil
  then show ?case by simp
next
  case (Cons p ps)
  note inv = Cons.prems(1) and keep = Cons.prems(2) and v = Cons.prems(3,4,5)
    and bd = Cons.prems(6) and w = Cons.prems(7)
  show ?case
  proof (cases "v < CONVERGENCE_THRESHOLD")
    case True
    with w have e: "cs' = cs" "r = v" by simp_all
    have "\<forall>c \<in> set cs. 0 \<le> votes c \<and> votes c \<le> real (m + length (p # ps)) \<and> fl (votes c) = votes c"
    proof
      fix c assume "c \<in> set cs"
      with inv have "0 \<le> votes c" "votes c \<le> real m" "fl (votes c) = votes c" by simp_all
      moreover have "real m \<le> real (m + length (p # ps))" by simp
      ultimately show "0 \<le> votes c \<and> votes c \<le> real (m + length (p # ps)) \<and> fl (votes c) = votes c"
        by linarith
    qed
    with e v show ?thesis by simp
  next
    case False
    with w obtain i where i: "index_of p cs = Some i" by (auto split: option.splits)
    let ?c = "cs ! i"
    let ?k = "if active ?c then keep_rate ?c else 0"
    let ?t = "fl (v * ?k)"
    let ?x = "fl (votes ?c + ?t)"
    let ?v1 = "fl (v - ?t)"
    let ?c1 = "?c\<lparr>votes := ?x\<rparr>"
    let ?cs1 = "cs[i := ?c1]"
    from index_of_less[OF i] have il: "i < length cs" .
    then have cin: "?c \<in> set cs" by simp
    from keep cin have k: "0 \<le> ?k" "?k \<le> 1" by auto
    from inv cin have a: "0 \<le> votes ?c" "votes ?c \<le> real m" "fl (votes ?c) = votes ?c" by simp_all
    from bd have bd1: "m + 1 \<le> 2 ^ 53" by simp
    note ts = transfer_step[OF k v a bd1]
    from w False i have w1: "walk_ballot ps ?v1 ?cs1 = Inr (cs', r)" by (simp add: Let_def)
    have sub: "set ?cs1 \<subseteq> insert ?c1 (set cs)" by (rule set_update_subset_insert)
    have inv1: "\<forall>c \<in> set ?cs1. 0 \<le> votes c \<and> votes c \<le> real (m + 1) \<and> fl (votes c) = votes c"
    proof
      fix c assume "c \<in> set ?cs1"
      with sub have "c = ?c1 \<or> c \<in> set cs" by auto
      then show "0 \<le> votes c \<and> votes c \<le> real (m + 1) \<and> fl (votes c) = votes c"
      proof
        assume "c = ?c1"
        with ts(3,4) show ?thesis by simp
      next
        assume "c \<in> set cs"
        with inv have "0 \<le> votes c" "votes c \<le> real m" "fl (votes c) = votes c" by simp_all
        then show ?thesis by simp
      qed
    qed
    have keep1: "\<forall>c \<in> set ?cs1. active c \<longrightarrow> 0 \<le> keep_rate c \<and> keep_rate c \<le> 1"
    proof
      fix c assume "c \<in> set ?cs1"
      with sub have "c = ?c1 \<or> c \<in> set cs" by auto
      then show "active c \<longrightarrow> 0 \<le> keep_rate c \<and> keep_rate c \<le> 1"
      proof
        assume "c = ?c1"
        with keep cin show ?thesis by (simp add: active_def)
      next
        assume "c \<in> set cs"
        with keep show ?thesis by simp
      qed
    qed
    from bd have bd': "(m + 1) + length ps \<le> 2 ^ 53" by simp
    have dv: "fl ?v1 = ?v1" by simp
    from Cons.IH[OF inv1 keep1 ts(1) ts(2) dv bd' w1]
    have ih1: "\<forall>c \<in> set cs'. 0 \<le> votes c \<and> votes c \<le> real (m + 1 + length ps) \<and> fl (votes c) = votes c"
      and ih2: "0 \<le> r" "r \<le> 1"
      and ih3: "\<bar>sum_list (map votes cs') + r - (sum_list (map votes ?cs1) + ?v1)\<bar>
         \<le> real (length ps * (m + 1 + length ps + 1)) / 2 ^ 53" by simp_all
    have s: "sum_list (map votes ?cs1) = sum_list (map votes cs) - votes ?c + ?x"
      by (rule sum_votes_update[OF il])
    have "sum_list (map votes cs') + r - (sum_list (map votes cs) + v) =
          (sum_list (map votes cs') + r - (sum_list (map votes ?cs1) + ?v1))
          + ((?x - votes ?c) + ?v1 - v)" by (simp add: s)
    also have "\<bar>\<dots>\<bar> \<le> real (length ps * (m + 1 + length ps + 1)) / 2 ^ 53 + real (m + 2) / 2 ^ 53"
      using ih3 ts(5) by linarith
    also have "\<dots> = real (length ps * (m + 1 + length ps + 1) + (m + 2)) / 2 ^ 53"
      by (simp add: add_divide_distrib)
    also have "\<dots> \<le> real (length (p # ps) * (m + length (p # ps) + 1)) / 2 ^ 53"
    proof (rule divide_right_mono)
      have "length ps * (m + 1 + length ps + 1) + (m + 2)
          \<le> length (p # ps) * (m + length (p # ps) + 1)" by simp
      then show "real (length ps * (m + 1 + length ps + 1) + (m + 2))
          \<le> real (length (p # ps) * (m + length (p # ps) + 1))" by (simp only: of_nat_le_iff)
    qed simp
    finally have err: "\<bar>sum_list (map votes cs') + r - (sum_list (map votes cs) + v)\<bar>
        \<le> real (length (p # ps) * (m + length (p # ps) + 1)) / 2 ^ 53" .
    from ih1 have "\<forall>c \<in> set cs'. 0 \<le> votes c \<and> votes c \<le> real (m + length (p # ps))
        \<and> fl (votes c) = votes c" by (simp add: add.commute add.left_commute)
    with ih2 err show ?thesis by blast
  qed
qed

lemma keep_range_reset:
  assumes "reset_votes cs' = reset_votes cs"
    and "\<forall>c \<in> set cs. active c \<longrightarrow> P (keep_rate c)"
  shows "\<forall>c \<in> set cs'. active c \<longrightarrow> P (keep_rate c)"
proof (intro ballI impI)
  fix c' assume c': "c' \<in> set cs'" and a: "active c'"
  from reset_votes_fields[OF assms(1)] have f:
    "list_all2 (\<lambda>c c'. name c' = name c \<and> keep_rate c' = keep_rate c \<and> active c' = active c) cs cs'" .
  from c' obtain i where i: "i < length cs'" "c' = cs' ! i" by (auto simp: in_set_conv_nth)
  from f i have e: "length cs = length cs'" "keep_rate c' = keep_rate (cs ! i)"
    "active c' = active (cs ! i)" by (simp_all add: list_all2_conv_all_nth)
  from e(1) i(1) have "cs ! i \<in> set cs" by simp
  with assms(2) a e show "P (keep_rate c')" by simp
qed

lemma count_ballots_error:
  assumes "\<forall>c \<in> set cs. 0 \<le> votes c \<and> votes c \<le> real m \<and> fl (votes c) = votes c"
    and "\<forall>c \<in> set cs. active c \<longrightarrow> 0 \<le> keep_rate c \<and> keep_rate c \<le> 1"
    and "m + sum_list (map (\<lambda>b. length (preferences b)) bs) \<le> 2 ^ 53"
    and "count_ballots bs cs = Inr (cs', ls)"
  shows "\<bar>sum_list (map votes cs') + sum_list ls - (sum_list (map votes cs) + real (length bs))\<bar>
         \<le> real (sum_list (map (\<lambda>b. length (preferences b)) bs)
                   * (m + sum_list (map (\<lambda>b. length (preferences b)) bs) + 1)) / 2 ^ 53"
  using assms
proof (induction bs arbitrary: m cs cs' ls)
  case Nil
  then show ?case by simp
next
  case (Cons b bs)
  let ?n = "length (preferences b)"
  let ?P = "sum_list (map (\<lambda>b. length (preferences b)) bs)"
  from Cons.prems(4) obtain cs1 l ls1 where
    w: "walk_ballot (preferences b) 1 cs = Inr (cs1, l)" and
    c: "count_ballots bs cs1 = Inr (cs', ls1)" and ls: "ls = l # ls1"
    by (auto split: sum.splits prod.splits)
  from Cons.prems(3) have bd: "m + ?n \<le> 2 ^ 53" and bd': "(m + ?n) + ?P \<le> 2 ^ 53"
    by simp_all
  have one: "(0::real) \<le> 1" "(1::real) \<le> 1" "fl 1 = 1" by simp_all
  from walk_ballot_error[OF Cons.prems(1,2) one bd w]
  have inv1: "\<forall>c \<in> set cs1. 0 \<le> votes c \<and> votes c \<le> real (m + ?n) \<and> fl (votes c) = votes c"
    and e1: "\<bar>sum_list (map votes cs1) + l - (sum_list (map votes cs) + 1)\<bar>
         \<le> real (?n * (m + ?n + 1)) / 2 ^ 53" by simp_all
  from keep_range_reset[OF walk_ballot_reset[OF w], of "\<lambda>k. 0 \<le> k \<and> k \<le> 1"] Cons.prems(2)
  have keep1: "\<forall>c \<in> set cs1. active c \<longrightarrow> 0 \<le> keep_rate c \<and> keep_rate c \<le> 1" by simp
  from Cons.IH[OF inv1 keep1 bd' c]
  have e2: "\<bar>sum_list (map votes cs') + sum_list ls1 - (sum_list (map votes cs1) + real (length bs))\<bar>
         \<le> real (?P * (m + ?n + ?P + 1)) / 2 ^ 53" .
  have "sum_list (map votes cs') + sum_list ls - (sum_list (map votes cs) + real (length (b # bs))) =
        (sum_list (map votes cs') + sum_list ls1 - (sum_list (map votes cs1) + real (length bs)))
        + (sum_list (map votes cs1) + l - (sum_list (map votes cs) + 1))" by (simp add: ls)
  also have "\<bar>\<dots>\<bar> \<le> real (?P * (m + ?n + ?P + 1)) / 2 ^ 53 + real (?n * (m + ?n + 1)) / 2 ^ 53"
    using e1 e2 by linarith
  also have "\<dots> = real (?P * (m + ?n + ?P + 1) + ?n * (m + ?n + 1)) / 2 ^ 53"
    by (simp add: add_divide_distrib)
  also have "\<dots> \<le> real ((?n + ?P) * (m + (?n + ?P) + 1)) / 2 ^ 53"
  proof (rule divide_right_mono)
    have "?P * (m + ?n + ?P + 1) + ?n * (m + ?n + 1) \<le> (?n + ?P) * (m + (?n + ?P) + 1)"
      by (simp add: algebra_simps)
    then show "real (?P * (m + ?n + ?P + 1) + ?n * (m + ?n + 1))
        \<le> real ((?n + ?P) * (m + (?n + ?P) + 1))" by (simp only: of_nat_le_iff)
  qed simp
  finally show ?case by simp
qed

lemma walk_ballot_exact:
  assumes "\<forall>c \<in> set cs. \<exists>n \<le> m. votes c = real n"
    and "\<forall>c \<in> set cs. active c \<longrightarrow> keep_rate c = 1"
    and "v = 0 \<or> v = 1"
    and "m + length ps \<le> 2 ^ 53"
    and "walk_ballot ps v cs = Inr (cs', r)"
  shows "(\<forall>c \<in> set cs'. \<exists>n \<le> m + length ps. votes c = real n)
     \<and> (r = 0 \<or> r = 1)
     \<and> sum_list (map votes cs') + r = sum_list (map votes cs) + v"
  using assms
proof (induction ps arbitrary: m v cs)
  case Nil
  then show ?case by simp
next
  case (Cons p ps)
  note inv = Cons.prems(1) and keep = Cons.prems(2) and v = Cons.prems(3)
    and bd = Cons.prems(4) and w = Cons.prems(5)
  show ?case
  proof (cases "v < CONVERGENCE_THRESHOLD")
    case True
    with w have e: "cs' = cs" "r = v" by simp_all
    have "\<forall>c \<in> set cs. \<exists>n \<le> m + length (p # ps). votes c = real n"
    proof
      fix c assume "c \<in> set cs"
      with inv obtain n where "n \<le> m" "votes c = real n" by blast
      then show "\<exists>n \<le> m + length (p # ps). votes c = real n" by (intro exI[of _ n]) simp
    qed
    with e v show ?thesis by simp
  next
    case False
    with v threshold_pos have v1: "v = 1" by auto
    from False w obtain i where i: "index_of p cs = Some i" by (auto split: option.splits)
    let ?c = "cs ! i"
    let ?k = "if active ?c then keep_rate ?c else 0"
    let ?c1 = "?c\<lparr>votes := fl (votes ?c + ?k)\<rparr>"
    let ?cs1 = "cs[i := ?c1]"
    from index_of_less[OF i] have il: "i < length cs" .
    then have cin: "?c \<in> set cs" by simp
    from keep cin have k: "?k = 0 \<or> ?k = 1" by auto
    then have fk: "fl ?k = ?k" by auto
    from k have fv: "fl (1 - ?k) = 1 - ?k" "1 - ?k = 0 \<or> 1 - ?k = 1" by auto
    from inv cin obtain n where n: "n \<le> m" "votes ?c = real n" by blast
    from k obtain j where j: "j \<le> 1" "?k = real j"
    proof
      assume "?k = 0"
      then show ?thesis by (intro that[of 0]) simp_all
    next
      assume "?k = 1"
      then show ?thesis by (intro that[of 1]) simp_all
    qed
    from n(1) j(1) bd have "n + j \<le> 2 ^ 53" by simp
    from fl_nat[OF this] n(2) j(2) have x: "fl (votes ?c + ?k) = real (n + j)" by simp
    from w False i v1 have w1: "walk_ballot ps (1 - ?k) ?cs1 = Inr (cs', r)"
      by (simp add: Let_def fk fv(1))
    have sub: "set ?cs1 \<subseteq> insert ?c1 (set cs)" by (rule set_update_subset_insert)
    have inv1: "\<forall>c \<in> set ?cs1. \<exists>n \<le> m + 1. votes c = real n"
    proof
      fix c assume "c \<in> set ?cs1"
      with sub have "c = ?c1 \<or> c \<in> set cs" by auto
      then show "\<exists>n \<le> m + 1. votes c = real n"
      proof
        assume "c = ?c1"
        with x n(1) j(1) show ?thesis by (intro exI[of _ "n + j"]) simp
      next
        assume "c \<in> set cs"
        with inv obtain n' where "n' \<le> m" "votes c = real n'" by blast
        then show ?thesis by (intro exI[of _ n']) simp
      qed
    qed
    have keep1: "\<forall>c \<in> set ?cs1. active c \<longrightarrow> keep_rate c = 1"
    proof
      fix c assume "c \<in> set ?cs1"
      with sub have "c = ?c1 \<or> c \<in> set cs" by auto
      then show "active c \<longrightarrow> keep_rate c = 1"
      proof
        assume "c = ?c1"
        with keep cin show ?thesis by (simp add: active_def)
      next
        assume "c \<in> set cs"
        with keep show ?thesis by simp
      qed
    qed
    from bd have bd': "(m + 1) + length ps \<le> 2 ^ 53" by simp
    from Cons.IH[OF inv1 keep1 fv(2) bd' w1]
    have ih1: "\<forall>c \<in> set cs'. \<exists>n \<le> m + 1 + length ps. votes c = real n"
      and ih2: "r = 0 \<or> r = 1"
      and ih3: "sum_list (map votes cs') + r = sum_list (map votes ?cs1) + (1 - ?k)" by simp_all
    have s: "sum_list (map votes ?cs1) = sum_list (map votes cs) - votes ?c + fl (votes ?c + ?k)"
      by (rule sum_votes_update[OF il])
    from x n(2) j(2) have "fl (votes ?c + ?k) = votes ?c + ?k" by simp
    with ih3 s v1 have "sum_list (map votes cs') + r = sum_list (map votes cs) + v" by simp
    moreover from ih1 have "\<forall>c \<in> set cs'. \<exists>n \<le> m + length (p # ps). votes c = real n"
      by (simp add: add.commute add.left_commute)
    ultimately show ?thesis using ih2 by blast
  qed
qed

lemma count_ballots_exact:
  assumes "\<forall>c \<in> set cs. \<exists>n \<le> m. votes c = real n"
    and "\<forall>c \<in> set cs. active c \<longrightarrow> keep_rate c = 1"
    and "m + sum_list (map (\<lambda>b. length (preferences b)) bs) \<le> 2 ^ 53"
    and "count_ballots bs cs = Inr (cs', ls)"
  shows "sum_list (map votes cs') + sum_list ls = sum_list (map votes cs) + real (length bs)"
  using assms
proof (induction bs arbitrary: m cs cs' ls)
  case Nil
  then show ?case by simp
next
  case (Cons b bs)
  let ?n = "length (preferences b)"
  let ?P = "sum_list (map (\<lambda>b. length (preferences b)) bs)"
  from Cons.prems(4) obtain cs1 l ls1 where
    w: "walk_ballot (preferences b) 1 cs = Inr (cs1, l)" and
    c: "count_ballots bs cs1 = Inr (cs', ls1)" and ls: "ls = l # ls1"
    by (auto split: sum.splits prod.splits)
  from Cons.prems(3) have bd: "m + ?n \<le> 2 ^ 53" and bd': "(m + ?n) + ?P \<le> 2 ^ 53"
    by simp_all
  have one: "(1::real) = 0 \<or> (1::real) = 1" by simp
  from walk_ballot_exact[OF Cons.prems(1,2) one bd w]
  have inv1: "\<forall>c \<in> set cs1. \<exists>n \<le> m + ?n. votes c = real n"
    and e1: "sum_list (map votes cs1) + l = sum_list (map votes cs) + 1" by simp_all
  from keep_range_reset[OF walk_ballot_reset[OF w], of "\<lambda>k. k = 1"] Cons.prems(2)
  have keep1: "\<forall>c \<in> set cs1. active c \<longrightarrow> keep_rate c = 1" by simp
  from Cons.IH[OF inv1 keep1 bd' c] e1 ls show ?case by simp
qed

section \<open>Properties\<close>

subsection \<open>C1: the scenario with ballots AB, AB, B, C\<close>

text \<open>
  C1, as stated, fails. The run on candidates A, B, C with one winner and the ballots
  AB, AB, B, C ends with A holding 2 votes, not 4: the ballots B and C do not rank A, so
  their value is left unconsumed once B and C are eliminated. 2 does not exceed the
  quota 3, and A ends Eliminated, not Elected.
\<close>

theorem scenario_counterexample:
  "run_election scenario_file (init [''A'', ''B'', ''C''] 1 False) =
     Some (Inr (scenario_state
       [cand ''A'' 2 False True 1, cand ''B'' 0 False True 1, cand ''C'' 0 False True 1]))
   \<and> votes (cand ''A'' 2 False True 1) \<noteq> 4
   \<and> \<not> is_winner (cand ''A'' 2 False True 1)"
  by code_simp

text \<open>
  C1, amended. In that election the quota is 3; round 1 leaves A with 2 votes and
  eliminates B and C together (1 vote each); then A is the only Active candidate, the
  last round recomputes A's total as 2 (the two ballots AB), which does not exceed the
  quota, and A ends Eliminated: the run elects no one.
\<close>

theorem scenario_run:
  "calculate_droop_quota (load_data scenario_file (init [''A'', ''B'', ''C''] 1 False)) =
     Inr (scenario_state
       [cand ''A'' 0 False False 1, cand ''B'' 0 False False 1, cand ''C'' 0 False False 1])
   \<and> run_single_round (scenario_state
       [cand ''A'' 0 False False 1, cand ''B'' 0 False False 1, cand ''C'' 0 False False 1]) =
     Inr (scenario_state
       [cand ''A'' 2 False False 1, cand ''B'' 1 False True 1, cand ''C'' 1 False True 1])
   \<and> active_candidates
       [cand ''A'' 2 False False 1, cand ''B'' 1 False True 1, cand ''C'' 1 False True 1] = [0]
   \<and> final_round (scenario_state
       [cand ''A'' 2 False False 1, cand ''B'' 1 False True 1, cand ''C'' 1 False True 1]) =
     Inr (scenario_state
       [cand ''A'' 2 False True 1, cand ''B'' 0 False True 1, cand ''C'' 0 False True 1])
   \<and> run_election scenario_file (init [''A'', ''B'', ''C''] 1 False) =
     Some (Inr (scenario_state
       [cand ''A'' 2 False True 1, cand ''B'' 0 False True 1, cand ''C'' 0 False True 1]))"
  by code_simp

theorem scenario_run_witness:
  "map_option (map_sum id (\<lambda>s. map votes (candidates s)))
     (run_election scenario_file (init [''A'', ''B'', ''C''] 1 False)) = Some (Inr [2, 0, 0])"
  using scenario_run by simp

subsection \<open>C2: the quota\<close>

text \<open>
  C2. With N valid ballots (N at least 1) and W winners, W + 1 not zero so that the
  division is defined, \<^verbatim>\<open>run_election\<close> computes the quota floor(N / (W + 1)) + 1 once,
  before the loop over the rounds starts; every state at the head of a round, and the
  final state, carry this same quota.
\<close>

theorem quota_fixed:
  assumes "ballots (load_data file s) \<noteq> []" and "num_winners s \<noteq> - 1"
  shows "\<exists>s1. calculate_droop_quota (load_data file s) = Inr s1
     \<and> droop_quota s1 =
         \<lfloor>real (length (ballots (load_data file s))) / real_of_int (num_winners s + 1)\<rfloor> + 1
     \<and> droop_quota s1 = int (length (ballots (load_data file s))) div (num_winners s + 1) + 1
     \<and> run_election file s = run_main_loop s1
     \<and> (\<forall>t. round_head s1 t \<longrightarrow> droop_quota t = droop_quota s1)
     \<and> (\<forall>r. run_election file s = Some (Inr r) \<longrightarrow> droop_quota r = droop_quota s1)"
proof -
  let ?s0 = "load_data file s"
  let ?q = "\<lfloor>real (length (ballots ?s0)) / real_of_int (num_winners s + 1)\<rfloor> + 1"
  let ?s1 = "?s0\<lparr>droop_quota := ?q\<rparr>"
  have nw: "num_winners ?s0 = num_winners s" by (simp add: load_data_frame)
  with assms(2) have c: "calculate_droop_quota ?s0 = Inr ?s1"
    by (simp add: calculate_droop_quota_def)
  have q: "droop_quota ?s1 = ?q" by simp
  have "real (length (ballots ?s0)) = real_of_int (int (length (ballots ?s0)))" by simp
  then have d: "?q = int (length (ballots ?s0)) div (num_winners s + 1) + 1"
    by (simp only: floor_divide_of_int_eq)
  from assms(1) c have e: "run_election file s = run_main_loop ?s1"
    by (simp add: run_election_def Let_def)
  have r: "\<forall>r. run_election file s = Some (Inr r) \<longrightarrow> droop_quota r = droop_quota ?s1"
    unfolding e by (auto dest!: run_main_loop_frame)
  have h: "\<forall>t. round_head ?s1 t \<longrightarrow> droop_quota t = droop_quota ?s1"
    by (auto dest: round_head_quota)
  from c q d e r h show ?thesis by (intro exI[of _ ?s1]) simp
qed

theorem quota_fixed_witness:
  "\<exists>s1. calculate_droop_quota (load_data scenario_file (init [''A'', ''B'', ''C''] 1 False)) = Inr s1
     \<and> droop_quota s1 = 3
     \<and> run_election scenario_file (init [''A'', ''B'', ''C''] 1 False) = run_main_loop s1"
proof -
  have h1: "ballots (load_data scenario_file (init [''A'', ''B'', ''C''] 1 False)) \<noteq> []"
    by code_simp
  have h2: "num_winners (init [''A'', ''B'', ''C''] 1 False) \<noteq> - 1"
    by (simp add: init_def)
  have n: "int (length (ballots (load_data scenario_file (init [''A'', ''B'', ''C''] 1 False))))
             div (num_winners (init [''A'', ''B'', ''C''] 1 False) + 1) + 1 = 3"
    by code_simp
  from quota_fixed[OF h1 h2] n show ?thesis by auto
qed

subsection \<open>C3: conservation\<close>

text \<open>
  C3, as stated, fails: the sum is not the number of ballots once a keep rate is not 1.
  Three ballots for A and the quota 2: the first pass of the convergence loop counts 3
  votes and shrinks the keep rate of A to the double nearest to 2/3. The next
  \<^verbatim>\<open>_recalculate_votes\<close> gives A the votes 2 (the three rounded additions) and leaves
  \<open>3002399751580331 / 2\<^sup>5\<^sup>3\<close> on each ballot: together \<open>3 + 2\<^sup>-\<^sup>5\<^sup>3\<close>, not 3.
\<close>

theorem conservation_counterexample:
  "meek_step
     \<lparr>candidates = [cand ''A'' 0 False False 1],
      ballots = [Vote [''A''], Vote [''A''], Vote [''A'']],
      num_winners = 1, droop_quota = 2, verbose = False\<rparr> =
   Inr (\<lparr>candidates = [cand ''A'' 3 False False (6004799503160661 / 9007199254740992)],
         ballots = [Vote [''A''], Vote [''A''], Vote [''A'']],
         num_winners = 1, droop_quota = 2, verbose = False\<rparr>,
        3002399751580331 / 9007199254740992)
   \<and> count_ballots [Vote [''A''], Vote [''A''], Vote [''A'']]
       (reset_votes [cand ''A'' 3 False False (6004799503160661 / 9007199254740992)]) =
     Inr ([cand ''A'' 2 False False (6004799503160661 / 9007199254740992)],
          [3002399751580331 / 9007199254740992, 3002399751580331 / 9007199254740992,
           3002399751580331 / 9007199254740992])
   \<and> sum_list (map votes [cand ''A'' 2 False False (6004799503160661 / 9007199254740992)])
       + sum_list [3002399751580331 / 9007199254740992, 3002399751580331 / 9007199254740992,
           3002399751580331 / 9007199254740992]
     \<noteq> real (length [Vote [''A''], Vote [''A''], Vote [''A'']])"
  by code_simp

text \<open>
  C3, amended. Let the ballots name declared candidates, let every Active candidate have
  a keep rate between 0 and 1, and let \<open>P\<close>, the number of preferences on all ballots
  together, be at most \<open>2\<^sup>5\<^sup>3\<close>. Then one pass of \<^verbatim>\<open>_recalculate_votes\<close> returns, and
  afterwards the votes of all candidates plus the values left unconsumed on the ballots
  differ from the number of ballots by at most \<open>P (P + 1) / 2\<^sup>5\<^sup>3\<close>, the rounding errors
  of the float additions and subtractions; the sum is exactly the number of ballots when
  every Active candidate has the keep rate 1, as in the first pass of each convergence
  loop.
\<close>

theorem conservation_rounded:
  assumes "valid_ballots s"
    and "\<forall>c \<in> set (candidates s). active c \<longrightarrow> 0 \<le> keep_rate c \<and> keep_rate c \<le> 1"
    and "sum_list (map (\<lambda>b. length (preferences b)) (ballots s)) \<le> 2 ^ 53"
  shows "\<exists>cs lefts. count_ballots (ballots s) (reset_votes (candidates s)) = Inr (cs, lefts)
     \<and> recalculate_votes s = Inr (s\<lparr>candidates := cs\<rparr>)
     \<and> length lefts = length (ballots s)
     \<and> \<bar>sum_list (map votes cs) + sum_list lefts - real (length (ballots s))\<bar>
         \<le> real (sum_list (map (\<lambda>b. length (preferences b)) (ballots s))
                   * (sum_list (map (\<lambda>b. length (preferences b)) (ballots s)) + 1)) / 2 ^ 53
     \<and> ((\<forall>c \<in> set (candidates s). active c \<longrightarrow> keep_rate c = 1) \<longrightarrow>
          sum_list (map votes cs) + sum_list lefts = real (length (ballots s)))"
proof -
  let ?cs0 = "reset_votes (candidates s)"
  let ?P = "sum_list (map (\<lambda>b. length (preferences b)) (ballots s))"
  have nm: "map name ?cs0 = map name (candidates s)" by (simp add: reset_votes_def)
  with assms(1) have "\<forall>b \<in> set (ballots s). \<forall>p \<in> set (preferences b). p \<in> set (map name ?cs0)"
    by (simp add: valid_ballots_def)
  from count_ballots_total[OF this] obtain cs lefts where
    c: "count_ballots (ballots s) ?cs0 = Inr (cs, lefts)" by blast
  have z: "sum_list (map votes ?cs0) = 0" by (simp add: reset_votes_def comp_def)
  from c have r: "recalculate_votes s = Inr (s\<lparr>candidates := cs\<rparr>)"
    by (simp add: recalculate_votes_def)
  have rr: "reset_votes ?cs0 = reset_votes (candidates s)" by (rule reset_votes_idem)
  have inv: "\<forall>c \<in> set ?cs0. 0 \<le> votes c \<and> votes c \<le> real (0::nat) \<and> fl (votes c) = votes c"
    by (auto simp: reset_votes_def)
  from keep_range_reset[OF rr, of "\<lambda>k. 0 \<le> k \<and> k \<le> 1"] assms(2)
  have keep: "\<forall>c \<in> set ?cs0. active c \<longrightarrow> 0 \<le> keep_rate c \<and> keep_rate c \<le> 1" by simp
  from assms(3) have bd: "0 + ?P \<le> 2 ^ 53" by simp
  from count_ballots_error[OF inv keep bd c] z
  have err: "\<bar>sum_list (map votes cs) + sum_list lefts - real (length (ballots s))\<bar>
         \<le> real (?P * (?P + 1)) / 2 ^ 53" by simp
  have ex: "sum_list (map votes cs) + sum_list lefts = real (length (ballots s))"
    if one: "\<forall>c \<in> set (candidates s). active c \<longrightarrow> keep_rate c = 1"
  proof -
    have inv': "\<forall>c \<in> set ?cs0. \<exists>n \<le> (0::nat). votes c = real n"
      by (auto simp: reset_votes_def)
    from keep_range_reset[OF rr, of "\<lambda>k. k = 1"] one
    have keep': "\<forall>c \<in> set ?cs0. active c \<longrightarrow> keep_rate c = 1" by simp
    from count_ballots_exact[OF inv' keep' bd c] z show ?thesis by simp
  qed
  from c r count_ballots_length[OF c] err ex show ?thesis by blast
qed

theorem conservation_rounded_witness:
  "\<exists>cs lefts. recalculate_votes
       \<lparr>candidates = [cand ''A'' 3 False False (6004799503160661 / 9007199254740992)],
        ballots = [Vote [''A''], Vote [''A''], Vote [''A'']],
        num_winners = 1, droop_quota = 2, verbose = False\<rparr> =
      Inr \<lparr>candidates = cs,
        ballots = [Vote [''A''], Vote [''A''], Vote [''A'']],
        num_winners = 1, droop_quota = 2, verbose = False\<rparr>
     \<and> length lefts = 3
     \<and> \<bar>sum_list (map votes cs) + sum_list lefts - 3\<bar> \<le> 12 / 2 ^ 53"
proof -
  let ?s = "\<lparr>candidates = [cand ''A'' 3 False False (6004799503160661 / 9007199254740992)],
        ballots = [Vote [''A''], Vote [''A''], Vote [''A'']],
        num_winners = 1, droop_quota = 2, verbose = False\<rparr>"
  have h1: "valid_ballots ?s" by (simp add: valid_ballots_def)
  have h2: "\<forall>c \<in> set (candidates ?s). active c \<longrightarrow> 0 \<le> keep_rate c \<and> keep_rate c \<le> 1"
    by simp
  have h3: "sum_list (map (\<lambda>b. length (preferences b)) (ballots ?s)) \<le> 2 ^ 53" by simp
  from conservation_rounded[OF h1 h2 h3] obtain cs lefts where
    "recalculate_votes ?s = Inr (?s\<lparr>candidates := cs\<rparr>)"
    "length lefts = length (ballots ?s)"
    "\<bar>sum_list (map votes cs) + sum_list lefts - real (length (ballots ?s))\<bar>
         \<le> real (sum_list (map (\<lambda>b. length (preferences b)) (ballots ?s))
                   * (sum_list (map (\<lambda>b. length (preferences b)) (ballots ?s)) + 1)) / 2 ^ 53"
    by blast
  then show ?thesis by (intro exI[of _ cs] exI[of _ lefts]) simp
qed

subsection \<open>C4: the decision of the last round\<close>

text \<open>
  C4. In the last round (no more Active candidates than \<^verbatim>\<open>num_winners\<close>), once the
  convergence loop has returned, the loop over the rounds ends, and every candidate that
  was Active is Elected exactly when its recomputed votes strictly exceed the quota and
  is Eliminated otherwise; with votes equal to the quota it is Eliminated, not Elected.
  The other candidates are left as the convergence loop returned them.
\<close>

theorem terminal_strict:
  assumes "int (length (active_candidates (candidates s))) \<le> num_winners s"
    and "run_meek_iteration s = Inr s1"
  shows "\<exists>s2. run_main_loop s = Some (Inr s2)
     \<and> length (candidates s1) = length (candidates s)
     \<and> length (candidates s2) = length (candidates s)
     \<and> (\<forall>i < length (candidates s).
          votes (candidates s2 ! i) = votes (candidates s1 ! i)
          \<and> (if active (candidates s ! i)
             then (is_winner (candidates s2 ! i) \<longleftrightarrow>
                     votes (candidates s1 ! i) > real_of_int (droop_quota s))
                \<and> (is_loser (candidates s2 ! i) \<longleftrightarrow>
                     \<not> votes (candidates s1 ! i) > real_of_int (droop_quota s))
                \<and> (votes (candidates s1 ! i) = real_of_int (droop_quota s) \<longrightarrow>
                     is_loser (candidates s2 ! i) \<and> \<not> is_winner (candidates s2 ! i))
             else candidates s2 ! i = candidates s1 ! i))"
proof -
  let ?cs1 = "candidates s1"
  let ?cs2 = "map (\<lambda>(c, c1). if active c then decide (droop_quota s) c1 else c1)
                (zip (candidates s) ?cs1)"
  let ?s2 = "s1\<lparr>candidates := ?cs2\<rparr>"
  from run_meek_iteration_Inr[OF assms(2)]
  have st: "statuses ?cs1 = statuses (candidates s)" by auto
  then have len: "length ?cs1 = length (candidates s)" by (rule statuses_length)
  have res: "candidates ?s2 = ?cs2" by simp
  have run: "run_main_loop s = Some (Inr ?s2)"
    using assms(1) final_round_Inr[OF assms(2)] by (subst run_main_loop.simps) simp
  have each: "votes (?cs2 ! i) = votes (?cs1 ! i)
          \<and> (if active (candidates s ! i)
             then (is_winner (?cs2 ! i) \<longleftrightarrow> votes (?cs1 ! i) > real_of_int (droop_quota s))
                \<and> (is_loser (?cs2 ! i) \<longleftrightarrow> \<not> votes (?cs1 ! i) > real_of_int (droop_quota s))
                \<and> (votes (?cs1 ! i) = real_of_int (droop_quota s) \<longrightarrow>
                     is_loser (?cs2 ! i) \<and> \<not> is_winner (?cs2 ! i))
             else ?cs2 ! i = ?cs1 ! i)" if i: "i < length (candidates s)" for i
  proof (cases "active (candidates s ! i)")
    case True
    with statuses_nth[OF st i] have a1: "\<not> is_winner (?cs1 ! i)" "\<not> is_loser (?cs1 ! i)"
      by (simp_all add: active_def)
    from i len True have "?cs2 ! i = decide (droop_quota s) (?cs1 ! i)" by simp
    with True a1 show ?thesis by (simp add: decide_def)
  next
    case False
    with i len show ?thesis by simp
  qed
  show ?thesis
  proof (rule exI[of _ ?s2], intro conjI)
    show "run_main_loop s = Some (Inr ?s2)" by (rule run)
    show "length ?cs1 = length (candidates s)" by (rule len)
    show "length (candidates ?s2) = length (candidates s)" using len by simp
    show "\<forall>i < length (candidates s).
          votes (candidates ?s2 ! i) = votes (?cs1 ! i)
          \<and> (if active (candidates s ! i)
             then (is_winner (candidates ?s2 ! i) \<longleftrightarrow>
                     votes (?cs1 ! i) > real_of_int (droop_quota s))
                \<and> (is_loser (candidates ?s2 ! i) \<longleftrightarrow>
                     \<not> votes (?cs1 ! i) > real_of_int (droop_quota s))
                \<and> (votes (?cs1 ! i) = real_of_int (droop_quota s) \<longrightarrow>
                     is_loser (candidates ?s2 ! i) \<and> \<not> is_winner (candidates ?s2 ! i))
             else candidates ?s2 ! i = ?cs1 ! i)"
      unfolding res using each by blast
  qed
qed

theorem terminal_strict_witness:
  "\<exists>s2. run_main_loop
          \<lparr>candidates = [cand ''A'' 0 False False 1],
           ballots = [Vote [''A''], Vote [''A''], Vote [''A'']],
           num_winners = 1, droop_quota = 2, verbose = False\<rparr> = Some (Inr s2)
     \<and> votes (candidates s2 ! 0) = 2
     \<and> is_loser (candidates s2 ! 0) \<and> \<not> is_winner (candidates s2 ! 0)"
proof -
  let ?s = "\<lparr>candidates = [cand ''A'' 0 False False 1],
           ballots = [Vote [''A''], Vote [''A''], Vote [''A'']],
           num_winners = 1, droop_quota = 2, verbose = False\<rparr>"
  let ?s1 = "\<lparr>candidates = [cand ''A'' 2 False False (6004799503160661 / 9007199254740992)],
           ballots = [Vote [''A''], Vote [''A''], Vote [''A'']],
           num_winners = 1, droop_quota = 2, verbose = False\<rparr>"
  have h1: "int (length (active_candidates (candidates ?s))) \<le> num_winners ?s"
    by code_simp
  have h2: "run_meek_iteration ?s = Inr ?s1"
    by code_simp
  from terminal_strict[OF h1 h2] obtain s2 where
    r: "run_main_loop ?s = Some (Inr s2)" and
    e: "\<forall>i < length (candidates ?s).
          votes (candidates s2 ! i) = votes (candidates ?s1 ! i)
          \<and> (if active (candidates ?s ! i)
             then (is_winner (candidates s2 ! i) \<longleftrightarrow>
                     votes (candidates ?s1 ! i) > real_of_int (droop_quota ?s))
                \<and> (is_loser (candidates s2 ! i) \<longleftrightarrow>
                     \<not> votes (candidates ?s1 ! i) > real_of_int (droop_quota ?s))
                \<and> (votes (candidates ?s1 ! i) = real_of_int (droop_quota ?s) \<longrightarrow>
                     is_loser (candidates s2 ! i) \<and> \<not> is_winner (candidates s2 ! i))
             else candidates s2 ! i = candidates ?s1 ! i)"
    by blast
  from e have "votes (candidates s2 ! 0) = 2 \<and> is_loser (candidates s2 ! 0)
      \<and> \<not> is_winner (candidates s2 ! 0)"
    by (simp add: active_def)
  with r show ?thesis by blast
qed

subsection \<open>C5: keep rates never grow within a convergence loop\<close>

text \<open>
  C5. Let the quota be at least 0, as it is in every run with \<^verbatim>\<open>num_winners\<close> at least 0.
  In one run of the convergence loop, started by setting the keep rate of every Active
  candidate to 1, from each pass to the next (and to the state in which the loop ends)
  no candidate's keep rate grows: an Active candidate over the quota has its rate
  multiplied by the rounded quotient quota / votes, which lies between 0 and 1, the
  rounded product is not above the rate, and no other rate changes.
\<close>

theorem keep_rate_monotone:
  assumes "0 \<le> droop_quota s"
  shows "successively keep_rates_shrink
           (meek_trace MAX_ITERATIONS (s\<lparr>candidates := reset_keep_rates (candidates s)\<rparr>))
     \<and> (\<forall>s'. meek_loop MAX_ITERATIONS (s\<lparr>candidates := reset_keep_rates (candidates s)\<rparr>) = Inr s'
          \<longrightarrow> last (meek_trace MAX_ITERATIONS
                      (s\<lparr>candidates := reset_keep_rates (candidates s)\<rparr>)) = s')"
proof
  show "successively keep_rates_shrink
           (meek_trace MAX_ITERATIONS (s\<lparr>candidates := reset_keep_rates (candidates s)\<rparr>))"
    by (rule meek_trace_successively) (simp_all add: assms keep_ok_reset)
  show "\<forall>s'. meek_loop MAX_ITERATIONS (s\<lparr>candidates := reset_keep_rates (candidates s)\<rparr>) = Inr s'
          \<longrightarrow> last (meek_trace MAX_ITERATIONS
                      (s\<lparr>candidates := reset_keep_rates (candidates s)\<rparr>)) = s'"
    by (auto dest: meek_trace_last)
qed

theorem keep_rate_monotone_witness:
  "map (\<lambda>t. map keep_rate (candidates t))
     (meek_trace MAX_ITERATIONS
        \<lparr>candidates = reset_keep_rates [cand ''A'' 0 False False 1],
         ballots = [Vote [''A''], Vote [''A''], Vote [''A'']],
         num_winners = 1, droop_quota = 2, verbose = False\<rparr>) = [[1], [6004799503160661 / 9007199254740992], [6004799503160661 / 9007199254740992]]
   \<and> successively keep_rates_shrink
     (meek_trace MAX_ITERATIONS
        \<lparr>candidates = reset_keep_rates [cand ''A'' 0 False False 1],
         ballots = [Vote [''A''], Vote [''A''], Vote [''A'']],
         num_winners = 1, droop_quota = 2, verbose = False\<rparr>)"
proof -
  let ?s = "\<lparr>candidates = [cand ''A'' 0 False False 1],
         ballots = [Vote [''A''], Vote [''A''], Vote [''A'']],
         num_winners = 1, droop_quota = 2, verbose = False\<rparr>"
  have h: "0 \<le> droop_quota ?s" by simp
  have t: "map (\<lambda>t. map keep_rate (candidates t))
     (meek_trace MAX_ITERATIONS
        \<lparr>candidates = reset_keep_rates [cand ''A'' 0 False False 1],
         ballots = [Vote [''A''], Vote [''A''], Vote [''A'']],
         num_winners = 1, droop_quota = 2, verbose = False\<rparr>) = [[1], [6004799503160661 / 9007199254740992], [6004799503160661 / 9007199254740992]]"
    by code_simp
  from keep_rate_monotone[OF h, THEN conjunct1] t show ?thesis by simp
qed

subsection \<open>C6: elimination with ties\<close>

text \<open>
  C6. In a round with more Active candidates than \<^verbatim>\<open>num_winners\<close>, after the
  convergence loop (which changes no status) the elimination sets \<^verbatim>\<open>is_loser\<close> for
  exactly the Active candidates whose votes differ from the least votes among the Active
  candidates by less than the convergence threshold (the difference as the float
  subtraction gives it), all in that round, and changes nothing else;
  the loop over the rounds goes on from that state.
\<close>

theorem elimination_ties:
  assumes "\<not> int (length (active_candidates (candidates s))) \<le> num_winners s"
    and "run_meek_iteration s = Inr s1"
  shows "run_single_round s = Inr (eliminate_loser s1)
     \<and> run_main_loop s = run_main_loop (eliminate_loser s1)
     \<and> statuses (candidates s1) = statuses (candidates s)
     \<and> eliminate_loser s1 =
         s1\<lparr>candidates :=
              map (\<lambda>c. if active c \<and>
                           \<bar>fl (votes c - Min (votes ` {c \<in> set (candidates s1). active c}))\<bar>
                             < CONVERGENCE_THRESHOLD
                        then c\<lparr>is_loser := True\<rparr> else c) (candidates s1)\<rparr>"
proof -
  have r: "run_single_round s = Inr (eliminate_loser s1)"
    using assms(2) by (simp add: run_single_round_def)
  have m: "run_main_loop s = run_main_loop (eliminate_loser s1)"
    using assms(1) r by (subst run_main_loop.simps) simp
  from run_meek_iteration_Inr[OF assms(2)]
  have st: "statuses (candidates s1) = statuses (candidates s)" by auto
  from eliminate_loser_frame[of s1] obtain cs where cs: "eliminate_loser s1 = s1\<lparr>candidates := cs\<rparr>"
    by blast
  then have "candidates (eliminate_loser s1) = cs" by simp
  with cs have e: "eliminate_loser s1 = s1\<lparr>candidates := candidates (eliminate_loser s1)\<rparr>"
    by simp
  show ?thesis
    using r m st e unfolding eliminate_loser_candidates by (intro conjI)
qed

theorem elimination_ties_witness:
  "run_single_round
     (scenario_state
       [cand ''A'' 0 False False 1, cand ''B'' 0 False False 1, cand ''C'' 0 False False 1]) =
   Inr (scenario_state
       [cand ''A'' 2 False False 1, cand ''B'' 1 False True 1, cand ''C'' 1 False True 1])"
proof -
  let ?s = "scenario_state
       [cand ''A'' 0 False False 1, cand ''B'' 0 False False 1, cand ''C'' 0 False False 1]"
  let ?s1 = "scenario_state
       [cand ''A'' 2 False False 1, cand ''B'' 1 False False 1, cand ''C'' 1 False False 1]"
  have h1: "\<not> int (length (active_candidates (candidates ?s))) \<le> num_winners ?s"
    by code_simp
  have h2: "run_meek_iteration ?s = Inr ?s1"
    by code_simp
  have e: "eliminate_loser ?s1 = scenario_state
       [cand ''A'' 2 False False 1, cand ''B'' 1 False True 1, cand ''C'' 1 False True 1]"
    by code_simp
  from elimination_ties[OF h1 h2, THEN conjunct1] show ?thesis by (simp only: e)
qed

subsection \<open>C7: a status, once set, stays\<close>

text \<open>
  C7. From any state \<open>t\<close> to any state \<open>u\<close> reached later in a run, every candidate that
  is Elected or Eliminated in \<open>t\<close> has the same two flags in \<open>u\<close>, and a candidate that
  is Active in \<open>t\<close> is not both Elected and Eliminated in \<open>u\<close>. The ledger keeps its
  length and its keys.
\<close>

theorem status_is_final:
  assumes "run_point t u"
  shows "length (candidates u) = length (candidates t)
     \<and> (\<forall>i < length (candidates t).
          name (candidates u ! i) = name (candidates t ! i)
          \<and> (if is_winner (candidates t ! i) \<or> is_loser (candidates t ! i)
             then is_winner (candidates u ! i) = is_winner (candidates t ! i)
                \<and> is_loser (candidates u ! i) = is_loser (candidates t ! i)
             else \<not> (is_winner (candidates u ! i) \<and> is_loser (candidates u ! i))))"
  using run_point_status_kept[OF assms]
  by (auto simp: status_kept_def list_all2_conv_all_nth active_def)

theorem status_is_final_witness:
  "run_point
     (scenario_state
        [cand ''A'' 2 False False 1, cand ''B'' 1 False True 1, cand ''C'' 1 False True 1])
     (scenario_state
        [cand ''A'' 2 False True 1, cand ''B'' 0 False True 1, cand ''C'' 0 False True 1])
   \<and> (\<exists>r. run_main_loop (scenario_state
        [cand ''A'' 2 False False 1, cand ''B'' 1 False True 1, cand ''C'' 1 False True 1]) =
          Some (Inr r)
        \<and> is_loser (candidates r ! 1) \<and> \<not> is_winner (candidates r ! 1)
        \<and> \<not> (is_winner (candidates r ! 0) \<and> is_loser (candidates r ! 0)))"
proof -
  let ?t = "scenario_state
        [cand ''A'' 2 False False 1, cand ''B'' 1 False True 1, cand ''C'' 1 False True 1]"
  let ?u = "scenario_state
        [cand ''A'' 2 False True 1, cand ''B'' 0 False True 1, cand ''C'' 0 False True 1]"
  have m: "run_main_loop ?t = Some (Inr ?u)" by code_simp
  from run_main_loop_run_point[OF m] have p: "run_point ?t ?u" .
  from status_is_final[OF p]
  have "is_loser (candidates ?u ! 1) \<and> \<not> is_winner (candidates ?u ! 1)
        \<and> \<not> (is_winner (candidates ?u ! 0) \<and> is_loser (candidates ?u ! 0))"
    by simp
  with m p show ?thesis by blast
qed

subsection \<open>C8: nobody is Elected before the last round\<close>

text \<open>
  C8. At the head of every round reached from the state \<open>s\<close> in which the loop over the
  rounds starts, and in that round after the convergence loop and after the elimination,
  the flags \<^verbatim>\<open>is_winner\<close> are those of \<open>s\<close> (all False after the constructor). A run that
  returns ends with the branch of the last round, applied at the head of a round: that
  branch alone sets \<^verbatim>\<open>is_winner\<close>. The method \<^verbatim>\<open>_elect_winners\<close>, modelled as
  \<open>elect_winners\<close>, occurs nowhere in \<open>run_election\<close> or in what it calls.
\<close>

theorem no_early_election:
  "(\<forall>t. round_head s t \<longrightarrow>
        map is_winner (candidates t) = map is_winner (candidates s)
        \<and> (\<forall>u. run_meek_iteration t = Inr u \<longrightarrow>
              map is_winner (candidates u) = map is_winner (candidates s)
              \<and> map is_winner (candidates (eliminate_loser u)) = map is_winner (candidates s)))
   \<and> (\<forall>r. run_main_loop s = Some (Inr r) \<longrightarrow>
         (\<exists>t. round_head s t \<and> int (length (active_candidates (candidates t))) \<le> num_winners t
              \<and> final_round t = Inr r))"
proof (intro conjI allI impI)
  fix t assume t: "round_head s t"
  from round_head_winners[OF t]
  show w: "map is_winner (candidates t) = map is_winner (candidates s)" .
  fix u assume "run_meek_iteration t = Inr u"
  from round_head_next_winners[OF this] w
  show "map is_winner (candidates u) = map is_winner (candidates s)"
    "map is_winner (candidates (eliminate_loser u)) = map is_winner (candidates s)"
    by simp_all
next
  fix r assume "run_main_loop s = Some (Inr r)"
  from run_main_loop_result[OF this]
  show "\<exists>t. round_head s t \<and> int (length (active_candidates (candidates t))) \<le> num_winners t
              \<and> final_round t = Inr r"
    by (auto split: if_splits)
qed

theorem no_early_election_witness:
  "round_head
     (scenario_state
        [cand ''A'' 0 False False 1, cand ''B'' 0 False False 1, cand ''C'' 0 False False 1])
     (scenario_state
        [cand ''A'' 2 False False 1, cand ''B'' 1 False True 1, cand ''C'' 1 False True 1])
   \<and> map is_winner (candidates (scenario_state
        [cand ''A'' 2 False False 1, cand ''B'' 1 False True 1, cand ''C'' 1 False True 1])) =
       map is_winner (candidates (scenario_state
        [cand ''A'' 0 False False 1, cand ''B'' 0 False False 1, cand ''C'' 0 False False 1]))"
proof -
  let ?s = "scenario_state
        [cand ''A'' 0 False False 1, cand ''B'' 0 False False 1, cand ''C'' 0 False False 1]"
  let ?t = "scenario_state
        [cand ''A'' 2 False False 1, cand ''B'' 1 False True 1, cand ''C'' 1 False True 1]"
  have g: "\<not> int (length (active_candidates (candidates ?s))) \<le> num_winners ?s" by code_simp
  have r: "run_single_round ?s = Inr ?t" by code_simp
  from round_head.next_round[OF round_head.start g r] have h: "round_head ?s ?t" .
  from no_early_election[of ?s] h
  have "map is_winner (candidates ?t) = map is_winner (candidates ?s)" by blast
  with h show ?thesis by blast
qed

subsection \<open>C9: no valid ballot\<close>

text \<open>
  C9. When loading leaves no valid ballot, \<^verbatim>\<open>run_election\<close> returns the state as loaded:
  the quota is not computed and keeps the value it had (0 after the constructor), no
  round runs, and the candidates are those of the setup, none Elected, none Eliminated.
\<close>

theorem empty_ballots_abort:
  assumes "ballots (load_data file s) = []"
  shows "run_election file s = Some (Inr (load_data file s))
    \<and> droop_quota (load_data file s) = droop_quota s
    \<and> candidates (load_data file s) = candidates s"
  using assms by (simp add: run_election_def load_data_frame)

theorem empty_ballots_abort_witness:
  "run_election None (init [''A'', ''B''] 1 False) =
     Some (Inr (init [''A'', ''B''] 1 False))
   \<and> droop_quota (load_data None (init [''A'', ''B''] 1 False)) = 0
   \<and> run_election (Some [[CHR 0x0A], ''AA'', ''AZ'']) (init [''A'', ''B''] 1 False) =
     Some (Inr (init [''A'', ''B''] 1 False))"
proof -
  have h1: "ballots (load_data None (init [''A'', ''B''] 1 False)) = []"
    by (simp add: load_data_def)
  have h2: "ballots (load_data (Some [[CHR 0x0A], ''AA'', ''AZ'']) (init [''A'', ''B''] 1 False)) = []"
    by code_simp
  have e1: "load_data None (init [''A'', ''B''] 1 False) = init [''A'', ''B''] 1 False"
    by (simp add: load_data_def init_def)
  have e2: "load_data (Some [[CHR 0x0A], ''AA'', ''AZ'']) (init [''A'', ''B''] 1 False) = init [''A'', ''B''] 1 False"
    by code_simp
  have q: "droop_quota (init [''A'', ''B''] 1 False) = 0" by (simp add: init_def)
  show ?thesis
    using empty_ballots_abort[OF h1] empty_ballots_abort[OF h2] e1 e2 q by simp
qed

subsection \<open>C10: the loop over the rounds terminates\<close>

text \<open>
  C10. Let \<^verbatim>\<open>num_winners\<close> be at least 0 (the claim asks for at least 1) and let the
  ballots name declared candidates, as the ballots that \<^verbatim>\<open>_load_data\<close> stores do. Then
  \<^verbatim>\<open>run_election\<close> returns, without raising, for every ballot file; the loop of
  \<^verbatim>\<open>_run_main_loop\<close> returns from every state, and without raising when the quota is
  at least 0; and in every round that is not the last one (more Active candidates than
  \<^verbatim>\<open>num_winners\<close>) the number of Active candidates strictly decreases: the candidate
  with the least votes passes the tie test, since the rounded difference of its votes
  and the minimum is 0 and the threshold is positive.
\<close>

theorem run_terminates:
  assumes "0 \<le> num_winners s" and "valid_ballots s"
  shows "(\<exists>r. run_election file s = Some (Inr r))
     \<and> (\<exists>r. run_main_loop s = Some r)
     \<and> (0 \<le> droop_quota s \<longrightarrow> (\<exists>r. run_main_loop s = Some (Inr r)))
     \<and> (\<forall>s'. \<not> int (length (active_candidates (candidates s))) \<le> num_winners s \<longrightarrow>
            run_single_round s = Inr s' \<longrightarrow>
            length (active_candidates (candidates s')) <
              length (active_candidates (candidates s)))"
proof (intro conjI allI impI)
  show "\<exists>r. run_election file s = Some (Inr r)"
  proof (cases "ballots (load_data file s) = []")
    case True
    then show ?thesis by (simp add: run_election_def)
  next
    case False
    let ?s0 = "load_data file s"
    from assms(1) have nw: "0 \<le> num_winners ?s0" by (simp add: load_data_frame)
    from calculate_droop_quota_normal[OF nw] obtain q where
      c: "calculate_droop_quota ?s0 = Inr (?s0\<lparr>droop_quota := q\<rparr>)" and q: "0 \<le> q" by blast
    from load_data_valid[OF assms(2)] have "valid_ballots (?s0\<lparr>droop_quota := q\<rparr>)"
      by (simp add: valid_ballots_def)
    from run_main_loop_normal[OF this] q nw
    obtain r where "run_main_loop (?s0\<lparr>droop_quota := q\<rparr>) = Some (Inr r)" by auto
    with False c show ?thesis by (simp add: run_election_def Let_def)
  qed
  show "\<exists>r. run_main_loop s = Some r" using assms(1) by (rule run_main_loop_returns)
  show "\<exists>r. run_main_loop s = Some (Inr r)" if "0 \<le> droop_quota s"
    using assms(2) that assms(1) by (rule run_main_loop_normal)
next
  fix s' assume g: "\<not> int (length (active_candidates (candidates s))) \<le> num_winners s"
    and r: "run_single_round s = Inr s'"
  from g assms(1) have "active_candidates (candidates s) \<noteq> []" by auto
  from run_single_round_decreases[OF this r]
  show "length (active_candidates (candidates s')) < length (active_candidates (candidates s))" .
qed

theorem run_terminates_witness:
  "\<exists>r. run_election scenario_file (init [''A'', ''B'', ''C''] 1 False) = Some (Inr r)"
proof -
  have h1: "0 \<le> num_winners (init [''A'', ''B'', ''C''] 1 False)" by (simp add: init_def)
  have h2: "valid_ballots (init [''A'', ''B'', ''C''] 1 False)"
    by (simp add: init_def valid_ballots_def)
  from run_terminates[OF h1 h2, of scenario_file] show ?thesis by blast
qed

end
